theory Spec2Isabelle
  imports Main "HOL-Library.AList" "HOL-Library.Sublist"
begin

section \<open>Python values\<close>

text \<open>
  The two modules work on values that \<^verbatim>\<open>json.load\<close> and \<^verbatim>\<open>process_value\<close> produce.
  A Python \<^verbatim>\<open>str\<close> is a list of code points; the model covers the code points below 256
  (one \<^typ>\<open>char\<close> each). A \<^verbatim>\<open>dict\<close> keeps its insertion order, so it is an association
  list: reading is \<^const>\<open>map_of\<close>, the assignment \<^verbatim>\<open>d[k] = v\<close> is \<^const>\<open>AList.update\<close>
  (in place for a key that exists, appended otherwise).

  A \<^verbatim>\<open>float\<close> is kept as the decimal numeral that the parsed text denotes (sign, digits,
  power of ten); the rounding to binary64 is not modelled.
\<close>

datatype pyfloat = Dec bool nat int | Inf bool | NaN

datatype pyval =
    PNone
  | PBool bool
  | PInt int
  | PFloat pyfloat
  | PStr string
  | PList "pyval list"
  | PDict "(string \<times> pyval) list"

type_synonym pydict = "(string \<times> pyval) list"

text \<open>The exceptions that the modelled code can raise or let through.\<close>

datatype py_error =
    TypeError
  | AttributeError
  | ValueError string
  | OSError string
  | JSONDecodeError string
  | SchemaError string

section \<open>String operations of the Python runtime\<close>

definition py_isspace :: "char \<Rightarrow> bool" where
  "py_isspace c = ((of_char c :: nat) \<in> set [9, 10, 11, 12, 13, 28, 29, 30, 31, 32, 133, 160])"

definition py_strip :: "string \<Rightarrow> string" where
  "py_strip s = rev (dropWhile py_isspace (rev (dropWhile py_isspace s)))"

definition py_lower_char :: "char \<Rightarrow> char" where
  "py_lower_char c =
     (let n = (of_char c :: nat)
      in if (65 \<le> n \<and> n \<le> 90) \<or> (192 \<le> n \<and> n \<le> 222 \<and> n \<noteq> 215)
         then char_of (n + 32) else c)"

definition py_lower :: "string \<Rightarrow> string" where
  "py_lower s = map py_lower_char s"

text \<open>\<^verbatim>\<open>s.split(sep)\<close> for a one-character separator: never an empty list.\<close>

fun py_split :: "char \<Rightarrow> string \<Rightarrow> string list" where
  "py_split sep [] = [[]]"
| "py_split sep (c # cs) =
     (if c = sep then [] # py_split sep cs
      else (case py_split sep cs of
              [] \<Rightarrow> [[c]]
            | p # ps \<Rightarrow> (c # p) # ps))"

text \<open>\<^verbatim>\<open>needle in haystack\<close> on two strings is the substring test.\<close>

definition str_contains :: "string \<Rightarrow> string \<Rightarrow> bool" where
  "str_contains needle haystack = sublist needle haystack"

subsection \<open>\<^verbatim>\<open>int(s)\<close> and \<^verbatim>\<open>float(s)\<close>\<close>

definition py_isdigit :: "char \<Rightarrow> bool" where
  "py_isdigit c = (48 \<le> (of_char c :: nat) \<and> (of_char c :: nat) \<le> 57)"

definition digit_val :: "char \<Rightarrow> nat" where
  "digit_val c = (of_char c :: nat) - 48"

text \<open>The grammar \<^verbatim>\<open>digit (["_"] digit)*\<close> of Python's numeric strings.\<close>

fun valid_digitpart :: "string \<Rightarrow> bool" where
  "valid_digitpart [] = False"
| "valid_digitpart [c] = py_isdigit c"
| "valid_digitpart (c # d # cs) =
     (py_isdigit c \<and> (if d = CHR ''_'' then valid_digitpart cs else valid_digitpart (d # cs)))"

definition digits_value :: "string \<Rightarrow> nat" where
  "digits_value s = foldl (\<lambda>a c. 10 * a + digit_val c) 0 (filter (\<lambda>c. c \<noteq> CHR ''_'') s)"

text \<open>
  \<^verbatim>\<open>int(s)\<close>: surrounding whitespace is dropped, one sign is allowed, then a digit part.
  \<open>None\<close> stands for the \<^verbatim>\<open>ValueError\<close>. The interpreter's optional limit on the number of
  digits is not modelled.
\<close>

definition py_int :: "string \<Rightarrow> int option" where
  "py_int s =
     (case py_strip s of
        [] \<Rightarrow> None
      | c # cs \<Rightarrow>
          if c = CHR ''-'' then (if valid_digitpart cs then Some (- int (digits_value cs)) else None)
          else if c = CHR ''+'' then (if valid_digitpart cs then Some (int (digits_value cs)) else None)
          else if valid_digitpart (c # cs) then Some (int (digits_value (c # cs))) else None)"

text \<open>
  \<^verbatim>\<open>float(s)\<close>, after the grammar of the language reference:
  \<^verbatim>\<open>[sign] (number [exponent] | "inf" | "infinity" | "nan")\<close> with
  \<^verbatim>\<open>number ::= [digitpart] "." digitpart | digitpart ["."]\<close> and
  \<^verbatim>\<open>exponent ::= ("e" | "E") [sign] digitpart\<close>.
\<close>

definition split_sign :: "string \<Rightarrow> bool \<times> string" where
  "split_sign s =
     (case s of
        [] \<Rightarrow> (False, [])
      | c # cs \<Rightarrow> if c = CHR ''-'' then (True, cs) else if c = CHR ''+'' then (False, cs) else (False, c # cs))"

definition is_exp_char :: "char \<Rightarrow> bool" where
  "is_exp_char c = (c = CHR ''e'' \<or> c = CHR ''E'')"

definition parse_exponent :: "string \<Rightarrow> int option" where
  "parse_exponent r =
     (case r of
        [] \<Rightarrow> Some 0
      | e # x \<Rightarrow>
          (case split_sign x of
             (neg, ds) \<Rightarrow>
               if valid_digitpart ds
               then Some (if neg then - int (digits_value ds) else int (digits_value ds))
               else None))"

definition parse_mantissa :: "string \<Rightarrow> (nat \<times> nat) option" where
  "parse_mantissa m =
     (let ip = takeWhile (\<lambda>c. c \<noteq> CHR ''.'') m;
          r = dropWhile (\<lambda>c. c \<noteq> CHR ''.'') m
      in case r of
           [] \<Rightarrow> if valid_digitpart ip then Some (digits_value ip, 0) else None
         | dot # fp \<Rightarrow>
             if ((ip = [] \<or> valid_digitpart ip) \<and> valid_digitpart fp) \<or> (valid_digitpart ip \<and> fp = [])
             then Some (digits_value (ip @ fp), length (filter py_isdigit fp))
             else None)"

definition py_float :: "string \<Rightarrow> pyfloat option" where
  "py_float s =
     (case split_sign (py_strip s) of
        (neg, u) \<Rightarrow>
          if py_lower u \<in> set [''inf'', ''infinity''] then Some (Inf neg)
          else if py_lower u = ''nan'' then Some NaN
          else
            (case parse_mantissa (takeWhile (\<lambda>c. \<not> is_exp_char c) u) of
               None \<Rightarrow> None
             | Some (m, k) \<Rightarrow>
                 (case parse_exponent (dropWhile (\<lambda>c. \<not> is_exp_char c) u) of
                    None \<Rightarrow> None
                  | Some e \<Rightarrow> Some (Dec neg m (e - int k)))))"

section \<open>\<^verbatim>\<open>csv_importer.py\<close>: cell coercion\<close>

definition list_field_indicators :: "string list" where
  "list_field_indicators = [''tags'', ''features'', ''names'', ''ids'']"

definition is_list_field :: "string \<Rightarrow> bool" where
  "is_list_field key = list_ex (\<lambda>indicator. str_contains indicator (py_lower key)) list_field_indicators"

definition strip_enclosing_quotes :: "string \<Rightarrow> string" where
  "strip_enclosing_quotes v =
     (if v \<noteq> [] \<and> hd v = CHR 0x22 \<and> last v = CHR 0x22 then butlast (tl v) else v)"

definition process_value :: "string \<Rightarrow> string \<Rightarrow> pyval" where
  "process_value v key =
     (if v = [] then PNone
      else if py_lower v \<in> set [''true'', ''yes'', ''1''] then PBool True
      else if py_lower v \<in> set [''false'', ''no'', ''0''] then PBool False
      else if CHR '','' \<in> set v \<and> is_list_field key
        then PList (map (\<lambda>item. PStr (py_strip item)) (py_split (CHR '','') (strip_enclosing_quotes v)))
      else if CHR ''.'' \<in> set v
        then (case py_float v of Some f \<Rightarrow> PFloat f | None \<Rightarrow> PStr v)
      else (case py_int v of Some i \<Rightarrow> PInt i | None \<Rightarrow> PStr v))"

section \<open>\<^verbatim>\<open>csv_importer.py\<close>: from a flat row to a nested record\<close>

text \<open>
  The inner loop of \<^verbatim>\<open>transform_flat_to_nested\<close> walks \<^verbatim>\<open>parts[:-1]\<close> with the reference
  \<^verbatim>\<open>current\<close>, creates \<^verbatim>\<open>current[part] = {}\<close> where the key is missing, and finally assigns
  \<^verbatim>\<open>current[parts[-1]]\<close>. The model rebuilds the dictionaries on the way back.
  When \<^verbatim>\<open>current[part]\<close> is not a dictionary, every continuation raises \<^verbatim>\<open>TypeError\<close>:
  \<^verbatim>\<open>part not in current\<close> on \<^verbatim>\<open>None\<close>, a bool or a number; the indexing or the item assignment
  by a string key on a string or a list.
\<close>

fun assign_path :: "pydict \<Rightarrow> string list \<Rightarrow> string \<Rightarrow> pyval \<Rightarrow> py_error + pydict" where
  "assign_path current [] final v = Inr (AList.update final v current)"
| "assign_path current (part # parts) final v =
     (case map_of current part of
        None \<Rightarrow>
          (case assign_path [] parts final v of
             Inl e \<Rightarrow> Inl e
           | Inr sub \<Rightarrow> Inr (AList.update part (PDict sub) current))
      | Some (PDict d) \<Rightarrow>
          (case assign_path d parts final v of
             Inl e \<Rightarrow> Inl e
           | Inr sub \<Rightarrow> Inr (AList.update part (PDict sub) current))
      | Some _ \<Rightarrow> Inl TypeError)"

fun transform_items :: "(string \<times> string) list \<Rightarrow> pydict \<Rightarrow> py_error + pydict" where
  "transform_items [] nested_dict = Inr nested_dict"
| "transform_items ((key, v) # rest) nested_dict =
     (if CHR ''.'' \<in> set key then
        (let parts = py_split (CHR ''.'') key
         in case assign_path nested_dict (butlast parts) (last parts) (process_value v (last parts)) of
              Inl e \<Rightarrow> Inl e
            | Inr nested_dict' \<Rightarrow> transform_items rest nested_dict')
      else transform_items rest (AList.update key (process_value v key) nested_dict))"

definition transform_flat_to_nested :: "(string \<times> string) list \<Rightarrow> py_error + pydict" where
  "transform_flat_to_nested flat_dict = transform_items flat_dict []"

section \<open>\<^verbatim>\<open>csv_importer.py\<close>: the validation run\<close>

text \<open>
  What lies outside the two modules is a parameter of the run: the dictionary that
  \<^verbatim>\<open>get_available_schemas\<close> builds from the schema directory, what \<^verbatim>\<open>csv.DictReader\<close>
  yields for a path (\<open>Inl\<close> when the file cannot be opened), what \<^verbatim>\<open>json.load\<close> yields for a
  schema path, and \<^verbatim>\<open>jsonschema.validate\<close>.

  A \<^verbatim>\<open>DictReader\<close> row pairs each header with a string; a line with fewer cells than the
  header has \<^verbatim>\<open>None\<close> for the remaining headers, a line with more cells has the surplus as one
  list under the key \<^verbatim>\<open>None\<close>.
\<close>

datatype raw_cell = Field string string | Short string | Rest "string list"

datatype validate_outcome = Accepted | ValidationError string | InvalidSchema string

record env =
  available_schemas :: "(string \<times> string) list"
  csv_files :: "string \<Rightarrow> py_error + raw_cell list list"
  schema_files :: "string \<Rightarrow> py_error + pyval"
  jsonschema_validate :: "pyval \<Rightarrow> pyval \<Rightarrow> validate_outcome"

definition get_available_schemas :: "env \<Rightarrow> (string \<times> string) list" where
  "get_available_schemas E = available_schemas E"

text \<open>The comprehension \<^verbatim>\<open>{k: v for k, v in row.items() if v.strip()}\<close>.\<close>

fun clean_row :: "raw_cell list \<Rightarrow> (string \<times> string) list \<Rightarrow> py_error + (string \<times> string) list" where
  "clean_row [] cleaned = Inr cleaned"
| "clean_row (Field k v # cells) cleaned =
     (if py_strip v \<noteq> [] then clean_row cells (AList.update k v cleaned) else clean_row cells cleaned)"
| "clean_row (Short k # cells) cleaned = Inl AttributeError"
| "clean_row (Rest vs # cells) cleaned = Inl AttributeError"

fun clean_rows :: "raw_cell list list \<Rightarrow> py_error + (string \<times> string) list list" where
  "clean_rows [] = Inr []"
| "clean_rows (row # rows) =
     (case clean_row row [] of
        Inl e \<Rightarrow> Inl e
      | Inr cleaned_row \<Rightarrow>
          (case clean_rows rows of
             Inl e \<Rightarrow> Inl e
           | Inr data \<Rightarrow> Inr (cleaned_row # data)))"

definition read_csv_file :: "env \<Rightarrow> string \<Rightarrow> py_error + (string \<times> string) list list" where
  "read_csv_file E file_path =
     (case csv_files E file_path of
        Inl e \<Rightarrow> Inl e
      | Inr reader \<Rightarrow> clean_rows reader)"

definition load_schema :: "env \<Rightarrow> string \<Rightarrow> py_error + pyval" where
  "load_schema E schema_path = schema_files E schema_path"

text \<open>Only \<^verbatim>\<open>ValidationError\<close> is caught; any other exception leaves the function.\<close>

definition validate_against_schema :: "env \<Rightarrow> pydict \<Rightarrow> string \<Rightarrow> py_error + (bool \<times> string option)" where
  "validate_against_schema E data schema_path =
     (case load_schema E schema_path of
        Inl e \<Rightarrow> Inl e
      | Inr schema \<Rightarrow>
          (case jsonschema_validate E schema (PDict data) of
             Accepted \<Rightarrow> Inr (True, None)
           | ValidationError msg \<Rightarrow> Inr (False, Some msg)
           | InvalidSchema msg \<Rightarrow> Inl (SchemaError msg)))"

record valid_item =
  v_row :: nat
  v_id :: pyval
  v_data :: pydict

record invalid_item =
  i_row :: nat
  i_id :: pyval
  i_error :: "string option"
  i_data :: pydict

record validation_results =
  total :: nat
  valid :: nat
  invalid :: nat
  valid_items :: "valid_item list"
  invalid_items :: "invalid_item list"

text \<open>\<^verbatim>\<open>nested_data.get("id", "unknown")\<close>\<close>

definition get_id :: "pydict \<Rightarrow> pyval" where
  "get_id nested_data = (case map_of nested_data ''id'' of None \<Rightarrow> PStr ''unknown'' | Some x \<Rightarrow> x)"

text \<open>The loop \<^verbatim>\<open>for i, row in enumerate(csv_data)\<close>, from index \<open>i\<close> on.\<close>

fun validate_rows ::
  "env \<Rightarrow> string \<Rightarrow> nat \<Rightarrow> (string \<times> string) list list \<Rightarrow> validation_results \<Rightarrow> py_error + validation_results"
where
  "validate_rows E schema_path i [] res = Inr res"
| "validate_rows E schema_path i (row # rows) res =
     (case transform_flat_to_nested row of
        Inl e \<Rightarrow> Inl e
      | Inr nested_data \<Rightarrow>
          (case validate_against_schema E nested_data schema_path of
             Inl e \<Rightarrow> Inl e
           | Inr (is_valid, error_message) \<Rightarrow>
               if is_valid then
                 validate_rows E schema_path (i + 1) rows
                   (res\<lparr>valid := valid res + 1,
                        valid_items := valid_items res @
                          [\<lparr>v_row = i + 2, v_id = get_id nested_data, v_data = nested_data\<rparr>]\<rparr>)
               else
                 validate_rows E schema_path (i + 1) rows
                   (res\<lparr>invalid := invalid res + 1,
                        invalid_items := invalid_items res @
                          [\<lparr>i_row = i + 2, i_id = get_id nested_data,
                            i_error = error_message, i_data = nested_data\<rparr>]\<rparr>)))"

text \<open>\<^verbatim>\<open>repr\<close> of a string and of a list of strings, as the f-string prints the schema names.\<close>

definition hex_digit :: "nat \<Rightarrow> char" where
  "hex_digit n = (if n < 10 then char_of (48 + n) else char_of (87 + n))"

definition py_isprintable :: "char \<Rightarrow> bool" where
  "py_isprintable c =
     (let n = (of_char c :: nat) in (32 \<le> n \<and> n < 127) \<or> (161 \<le> n \<and> n \<noteq> 173))"

definition repr_char :: "char \<Rightarrow> char \<Rightarrow> string" where
  "repr_char quote c =
     (if c = quote \<or> c = CHR 0x5C then [CHR 0x5C, c]
      else if c = CHR 0x09 then [CHR 0x5C, CHR ''t'']
      else if c = CHR 0x0A then [CHR 0x5C, CHR ''n'']
      else if c = CHR 0x0D then [CHR 0x5C, CHR ''r'']
      else if py_isprintable c then [c]
      else [CHR 0x5C, CHR ''x'', hex_digit ((of_char c :: nat) div 16), hex_digit ((of_char c :: nat) mod 16)])"

definition py_repr_str :: "string \<Rightarrow> string" where
  "py_repr_str s =
     (let quote = (if CHR 0x27 \<in> set s \<and> CHR 0x22 \<notin> set s then CHR 0x22 else CHR 0x27)
      in [quote] @ concat (map (repr_char quote) s) @ [quote])"

fun join_comma :: "string list \<Rightarrow> string" where
  "join_comma [] = []"
| "join_comma [x] = x"
| "join_comma (x # y # ys) = x @ '', '' @ join_comma (y # ys)"

definition py_repr_list :: "string list \<Rightarrow> string" where
  "py_repr_list xs = ''['' @ join_comma (map py_repr_str xs) @ '']''"

definition unknown_schema_message :: "string \<Rightarrow> string list \<Rightarrow> string" where
  "unknown_schema_message schema_name names =
     ''Unknown schema: '' @ schema_name @ ''. Available schemas: '' @ py_repr_list names"

definition import_and_validate_csv :: "env \<Rightarrow> string \<Rightarrow> string \<Rightarrow> py_error + validation_results" where
  "import_and_validate_csv E file_path schema_name =
     (let available = get_available_schemas E
      in case map_of available schema_name of
           None \<Rightarrow> Inl (ValueError (unknown_schema_message schema_name (map fst available)))
         | Some schema_path \<Rightarrow>
             (case read_csv_file E file_path of
                Inl e \<Rightarrow> Inl e
              | Inr csv_data \<Rightarrow>
                  validate_rows E schema_path 0 csv_data
                    \<lparr>total = length csv_data, valid = 0, invalid = 0,
                     valid_items = [], invalid_items = []\<rparr>))"

section \<open>\<^verbatim>\<open>csv_template_generator.py\<close>: flattening a schema\<close>

text \<open>
  \<^verbatim>\<open>key in x\<close> tests the keys of a dictionary, the substrings of a string and the elements of a
  list; on \<^verbatim>\<open>None\<close>, a bool or a number it raises \<^verbatim>\<open>TypeError\<close>. \<^verbatim>\<open>x.get(key)\<close> exists on
  dictionaries only.
\<close>

definition py_in :: "string \<Rightarrow> pyval \<Rightarrow> py_error + bool" where
  "py_in k x =
     (case x of
        PDict d \<Rightarrow> Inr (k \<in> set (map fst d))
      | PStr s \<Rightarrow> Inr (str_contains k s)
      | PList xs \<Rightarrow> Inr (PStr k \<in> set xs)
      | _ \<Rightarrow> Inl TypeError)"

definition py_get :: "pyval \<Rightarrow> string \<Rightarrow> py_error + pyval option" where
  "py_get x k = (case x of PDict d \<Rightarrow> Inr (map_of d k) | _ \<Rightarrow> Inl AttributeError)"

text \<open>The test \<^verbatim>\<open>k in x and x.get('type') == ty\<close>, left to right.\<close>

definition has_with_type :: "pyval \<Rightarrow> string \<Rightarrow> string \<Rightarrow> py_error + bool" where
  "has_with_type x k ty =
     (case py_in k x of
        Inl e \<Rightarrow> Inl e
      | Inr False \<Rightarrow> Inr False
      | Inr True \<Rightarrow>
          (case py_get x ''type'' of
             Inl e \<Rightarrow> Inl e
           | Inr t \<Rightarrow> Inr (t = Some (PStr ty))))"

definition days :: "string list" where
  "days = [''Monday'', ''Tuesday'', ''Wednesday'', ''Thursday'', ''Friday'', ''Saturday'', ''Sunday'']"

definition time_leaf :: pyval where
  "time_leaf = PDict [(''type'', PStr ''string''), (''format'', PStr ''time'')]"

text \<open>The loop \<^verbatim>\<open>for day in days\<close> of the opening-hours branch.\<close>

fun set_opening_hours :: "string \<Rightarrow> string list \<Rightarrow> pydict \<Rightarrow> pydict" where
  "set_opening_hours new_key [] flattened = flattened"
| "set_opening_hours new_key (day # ds) flattened =
     set_opening_hours new_key ds
       (AList.update (new_key @ ''.'' @ day @ ''.closes'') time_leaf
          (AList.update (new_key @ ''.'' @ day @ ''.opens'') time_leaf flattened))"

text \<open>The loop over the properties of the items of an array of objects.\<close>

fun flatten_items :: "string \<Rightarrow> (string \<times> pyval) list \<Rightarrow> pydict \<Rightarrow> pydict" where
  "flatten_items new_key [] flattened = flattened"
| "flatten_items new_key ((item_key, item_value) # rest) flattened =
     flatten_items new_key rest (AList.update (new_key @ ''.'' @ item_key) item_value flattened)"

text \<open>\<^verbatim>\<open>f"{parent_key}.{key}" if parent_key else key\<close>\<close>

definition path_key :: "string \<Rightarrow> string \<Rightarrow> string" where
  "path_key parent_key key = (if parent_key \<noteq> [] then parent_key @ ''.'' @ key else key)"

text \<open>
  \<^verbatim>\<open>_flatten_schema\<close> and its loop over \<^verbatim>\<open>properties.items()\<close>; the accumulator
  \<^verbatim>\<open>flattened\<close> is passed through.
\<close>

function flatten_schema :: "pyval \<Rightarrow> string \<Rightarrow> pydict \<Rightarrow> py_error + pydict"
  and flatten_properties :: "(string \<times> pyval) list \<Rightarrow> string \<Rightarrow> pydict \<Rightarrow> py_error + pydict"
where
  "flatten_schema schema parent_key flattened =
     (case py_get schema ''properties'' of
        Inl e \<Rightarrow> Inl e
      | Inr None \<Rightarrow> Inr flattened
      | Inr (Some props) \<Rightarrow>
          (case props of
             PDict properties \<Rightarrow> flatten_properties properties parent_key flattened
           | _ \<Rightarrow> Inl AttributeError))"
| "flatten_properties [] parent_key flattened = Inr flattened"
| "flatten_properties ((key, v) # rest) parent_key flattened =
     (let new_key = path_key parent_key key
      in case has_with_type v ''properties'' ''object'' of
           Inl e \<Rightarrow> Inl e
         | Inr True \<Rightarrow>
             (case flatten_schema v new_key flattened of
                Inl e \<Rightarrow> Inl e
              | Inr flattened' \<Rightarrow> flatten_properties rest parent_key flattened')
         | Inr False \<Rightarrow>
             (case has_with_type v ''items'' ''array'' of
                Inl e \<Rightarrow> Inl e
              | Inr False \<Rightarrow> flatten_properties rest parent_key (AList.update new_key v flattened)
              | Inr True \<Rightarrow>
                  (case py_get v ''items'' of
                     Inl e \<Rightarrow> Inl e
                   | Inr items_opt \<Rightarrow>
                       (let items = (case items_opt of None \<Rightarrow> PDict [] | Some x \<Rightarrow> x)
                        in case has_with_type items ''properties'' ''object'' of
                             Inl e \<Rightarrow> Inl e
                           | Inr True \<Rightarrow>
                               (case py_get items ''properties'' of
                                  Inl e \<Rightarrow> Inl e
                                | Inr None \<Rightarrow> flatten_properties rest parent_key flattened
                                | Inr (Some (PDict item_properties)) \<Rightarrow>
                                    flatten_properties rest parent_key
                                      (flatten_items new_key item_properties flattened)
                                | Inr (Some _) \<Rightarrow> Inl AttributeError)
                           | Inr False \<Rightarrow>
                               if key = ''openingHours''
                               then flatten_properties rest parent_key
                                      (set_opening_hours new_key days flattened)
                               else flatten_properties rest parent_key
                                      (AList.update new_key v flattened)))))"
  by pat_completeness auto
termination
proof -
  have size_map_of: "map_of d k = Some v \<Longrightarrow> size v < size (PDict d)"
    for d :: pydict and k v
    by (induction d) (auto split: if_splits)
  have py_get_size: "py_get x k = Inr (Some v) \<Longrightarrow> size v < size x" for x k v
    by (cases x) (auto simp: py_get_def dest: size_map_of)
  show ?thesis
    by (relation "measure (\<lambda>x. case x of
                      Inl (schema, _, _) \<Rightarrow> size schema
                    | Inr (properties, _, _) \<Rightarrow> size (PDict properties))")
       (auto dest: py_get_size)
qed

section \<open>\<^verbatim>\<open>csv_template_generator.py\<close>: headers and sample row\<close>

definition schema_to_csv_headers :: "pydict \<Rightarrow> string list" where
  "schema_to_csv_headers schema = map fst schema"

definition common_samples :: "string \<Rightarrow> (string \<times> string) list" where
  "common_samples schema_name =
     [(''sourceId'', ''partner123''),
      (''id'', schema_name @ ''123''),
      (''nameFr'', ''Nom en fran'' @ [CHR 0xE7] @ ''ais''),
      (''nameEn'', ''Name in English''),
      (''descriptionFr'', ''Description en fran'' @ [CHR 0xE7] @ ''ais''),
      (''descriptionEn'', ''Description in English'')]"

definition event_samples :: "(string \<times> string) list" where
  "event_samples =
     [(''status'', ''scheduled''),
      (''startDate'', ''2023-08-15''),
      (''endDate'', ''2023-08-15''),
      (''startTime'', ''19:30''),
      (''endTime'', ''22:00''),
      (''placeId'', ''place123''),
      (''price.type'', ''range''),
      (''price.currency'', ''CAD''),
      (''price.minValue'', ''25.00''),
      (''price.maxValue'', ''75.00''),
      (''categoryTags'', ''music,concert,jazz''),
      (''performerNames'', ''John Smith Quartet,Jane Doe''),
      (''isAccessible'', ''true''),
      (''accessibilityFeatures'', ''Wheelchair Access,Assistive Listening Systems''),
      (''images.url'', ''https://example.com/images/event.jpg''),
      (''images.altText'', ''Event image description''),
      (''images.width'', ''1200''),
      (''images.height'', ''800''),
      (''ticketPurchaseUrl'', ''https://example.com/tickets'')]"

definition place_samples :: "(string \<times> string) list" where
  "place_samples =
     [(''locationType'', ''Place''),
      (''containedInPlaceStatus'', ''false''),
      (''addressStreet'', ''123 Main Street''),
      (''addressCity'', ''Montr'' @ [CHR 0xE9] @ ''al''),
      (''addressRegion'', ''QC''),
      (''addressPostalCode'', ''H2X1Z4''),
      (''addressCountry'', ''CAN''),
      (''latitude'', ''45.5088''),
      (''longitude'', ''-73.5878''),
      (''capacity'', ''500''),
      (''phoneNumber'', ''+15141234567''),
      (''emailAddress'', ''info@example.com''),
      (''websiteUrl'', ''https://example.com''),
      (''openingHours.Monday.opens'', ''09:00''),
      (''openingHours.Monday.closes'', ''17:00''),
      (''openingHours.Tuesday.opens'', ''09:00''),
      (''openingHours.Tuesday.closes'', ''17:00''),
      (''openingHours.Wednesday.opens'', ''09:00''),
      (''openingHours.Wednesday.closes'', ''17:00''),
      (''openingHours.Thursday.opens'', ''09:00''),
      (''openingHours.Thursday.closes'', ''21:00''),
      (''openingHours.Friday.opens'', ''09:00''),
      (''openingHours.Friday.closes'', ''21:00''),
      (''openingHours.Saturday.opens'', ''10:00''),
      (''openingHours.Saturday.closes'', ''21:00''),
      (''openingHours.Sunday.opens'', ''10:00''),
      (''openingHours.Sunday.closes'', ''17:00''),
      (''accessibilityFeatures'', ''Wheelchair Access,Accessible Restrooms,Assistive Listening Systems''),
      (''images.url'', ''https://example.com/images/place.jpg''),
      (''images.altText'', ''Exterior view of the location''),
      (''images.width'', ''1200''),
      (''images.height'', ''800'')]"

definition schema_samples :: "string \<Rightarrow> (string \<times> string) list" where
  "schema_samples schema_name =
     (if schema_name = ''event'' then event_samples
      else if schema_name = ''place'' then place_samples
      else [])"

text \<open>\<^verbatim>\<open>{**a, **b}\<close>: the entries of \<open>b\<close> are assigned into a copy of \<open>a\<close>.\<close>

definition dict_merge :: "('k \<times> 'v) list \<Rightarrow> ('k \<times> 'v) list \<Rightarrow> ('k \<times> 'v) list" where
  "dict_merge a b = fold (\<lambda>(k, v). AList.update k v) b a"

definition sample_data :: "string \<Rightarrow> (string \<times> string) list" where
  "sample_data schema_name = dict_merge (common_samples schema_name) (schema_samples schema_name)"

text \<open>\<^verbatim>\<open>d.get(k, "")\<close>\<close>

definition get_or_empty :: "(string \<times> string) list \<Rightarrow> string \<Rightarrow> string" where
  "get_or_empty d k = (case map_of d k of None \<Rightarrow> [] | Some x \<Rightarrow> x)"

definition create_sample_row :: "string list \<Rightarrow> string \<Rightarrow> (string \<times> string) list" where
  "create_sample_row headers schema_name =
     fold (\<lambda>header. AList.update header (get_or_empty (sample_data schema_name) header)) headers []"

text \<open>
  \<^verbatim>\<open>_generate_csv_template\<close> up to what it hands to \<^verbatim>\<open>csv.DictWriter\<close>: the field names and
  the row dictionary. \<^verbatim>\<open>writerow\<close> raises \<^verbatim>\<open>ValueError\<close> for a row key that is no field name;
  the text that the writer prints is outside the model.
\<close>

record template =
  headers :: "string list"
  sample_row :: "(string \<times> string) list"

definition generate_csv_template :: "env \<Rightarrow> string \<Rightarrow> string \<Rightarrow> py_error + template" where
  "generate_csv_template E schema_path schema_name =
     (case load_schema E schema_path of
        Inl e \<Rightarrow> Inl e
      | Inr schema \<Rightarrow>
          (case flatten_schema schema [] [] of
             Inl e \<Rightarrow> Inl e
           | Inr flattened_schema \<Rightarrow>
               (let hs = schema_to_csv_headers flattened_schema;
                    row = create_sample_row hs schema_name
                in if list_ex (\<lambda>k. k \<notin> set hs) (map fst row)
                   then Inl (ValueError ''dict contains fields not in fieldnames'')
                   else Inr \<lparr>headers = hs, sample_row = row\<rparr>)))"

definition generate_template :: "env \<Rightarrow> string \<Rightarrow> py_error + template" where
  "generate_template E schema_name =
     (let available = get_available_schemas E
      in case map_of available schema_name of
           None \<Rightarrow> Inl (ValueError (unknown_schema_message schema_name (map fst available)))
         | Some schema_path \<Rightarrow> generate_csv_template E schema_path schema_name)"

section \<open>Notions used to state the properties\<close>

text \<open>
  The nesting as the specification words it for one path: every segment but the last is a
  level that holds the next one, the last segment holds the value.
\<close>

fun spec_nest :: "string list \<Rightarrow> pyval \<Rightarrow> pydict" where
  "spec_nest [] x = []"
| "spec_nest [segment] x = [(segment, x)]"
| "spec_nest (segment # rest) x = [(segment, PDict (spec_nest rest x))]"

text \<open>Reading a nested value along a list of segments.\<close>

fun get_path :: "pyval \<Rightarrow> string list \<Rightarrow> pyval option" where
  "get_path x [] = Some x"
| "get_path (PDict d) (segment # rest) =
     (case map_of d segment of None \<Rightarrow> None | Some y \<Rightarrow> get_path y rest)"
| "get_path _ (segment # rest) = None"

section \<open>Example runs\<close>

text \<open>
  An environment after the test suite: two small schemas \<^verbatim>\<open>event\<close> and \<^verbatim>\<open>place\<close> (the
  second with an \<^verbatim>\<open>openingHours\<close> array whose items are declared integers); a file of two
  events, the second with an empty \<^verbatim>\<open>nameFr\<close> cell; a file whose first row sets \<^verbatim>\<open>a\<close> and
  then \<^verbatim>\<open>a.b\<close>. The validator of the example stands in for \<^verbatim>\<open>jsonschema\<close>: it rejects a
  record without \<^verbatim>\<open>nameFr\<close>.
\<close>

definition example_event_schema :: pyval where
  "example_event_schema =
     PDict [(''type'', PStr ''object''),
            (''properties'', PDict
               [(''sourceId'', PDict [(''type'', PStr ''string'')]),
                (''id'', PDict [(''type'', PStr ''string'')]),
                (''nameFr'', PDict [(''type'', PStr ''string'')]),
                (''descriptionFr'', PDict [(''type'', PStr ''string'')]),
                (''status'', PDict [(''type'', PStr ''string'')])]),
            (''required'', PList [PStr ''nameFr''])]"

definition example_place_schema :: pyval where
  "example_place_schema =
     PDict [(''type'', PStr ''object''),
            (''properties'', PDict
               [(''id'', PDict [(''type'', PStr ''string'')]),
                (''address'', PDict
                   [(''type'', PStr ''object''),
                    (''properties'', PDict
                       [(''street'', PDict [(''type'', PStr ''string'')]),
                        (''city'', PDict [(''type'', PStr ''string'')])])]),
                (''openingHours'', PDict
                   [(''type'', PStr ''array''), (''items'', PDict [(''type'', PStr ''integer'')])]),
                (''capacity'', PDict [(''type'', PStr ''integer'')])])]"

definition example_env :: env where
  "example_env =
     \<lparr>available_schemas =
        [(''event'', ''schemas/v1/event.json''), (''place'', ''schemas/v1/place.json'')],
      csv_files = (\<lambda>path.
        if path = ''events.csv'' then
          Inr [[Field ''sourceId'' ''partner123'', Field ''id'' ''event123'',
                Field ''nameFr'' ''Valid Event'', Field ''descriptionFr'' ''Valid Description'',
                Field ''status'' ''Scheduled''],
               [Field ''sourceId'' ''partner123'', Field ''id'' ''event456'',
                Field ''nameFr'' '''', Field ''descriptionFr'' ''Invalid Description'',
                Field ''status'' ''InvalidStatus'']]
        else if path = ''clash.csv'' then
          Inr [[Field ''a'' ''5'', Field ''a.b'' ''6''],
               [Field ''id'' ''event9'', Field ''nameFr'' ''Nine'']]
        else Inl (OSError ''No such file or directory'')),
      schema_files = (\<lambda>path.
        if path = ''schemas/v1/event.json'' then Inr example_event_schema
        else if path = ''schemas/v1/place.json'' then Inr example_place_schema
        else Inl (OSError ''No such file or directory'')),
      jsonschema_validate = (\<lambda>schema instance.
        case get_path instance [''nameFr''] of
          None \<Rightarrow> ValidationError ''nameFr is a required property''
        | Some x \<Rightarrow> Accepted)\<rparr>"

text \<open>The rows that \<^verbatim>\<open>read_csv_file\<close> returns for the first file, and the report of the run.\<close>

definition example_rows :: "(string \<times> string) list list" where
  "example_rows =
     [[(''sourceId'', ''partner123''), (''id'', ''event123''), (''nameFr'', ''Valid Event''),
       (''descriptionFr'', ''Valid Description''), (''status'', ''Scheduled'')],
      [(''sourceId'', ''partner123''), (''id'', ''event456''),
       (''descriptionFr'', ''Invalid Description''), (''status'', ''InvalidStatus'')]]"

definition example_report :: validation_results where
  "example_report =
     \<lparr>total = 2, valid = 1, invalid = 1,
      valid_items =
        [\<lparr>v_row = 2, v_id = PStr ''event123'',
          v_data = [(''sourceId'', PStr ''partner123''), (''id'', PStr ''event123''),
                    (''nameFr'', PStr ''Valid Event''),
                    (''descriptionFr'', PStr ''Valid Description''),
                    (''status'', PStr ''Scheduled'')]\<rparr>],
      invalid_items =
        [\<lparr>i_row = 3, i_id = PStr ''event456'',
          i_error = Some ''nameFr is a required property'',
          i_data = [(''sourceId'', PStr ''partner123''), (''id'', PStr ''event456''),
                    (''descriptionFr'', PStr ''Invalid Description''),
                    (''status'', PStr ''InvalidStatus'')]\<rparr>]\<rparr>"

text \<open>The paths of the days under a key, a pair for each day in the order of the week.\<close>

definition opening_hours_paths :: "string \<Rightarrow> string list" where
  "opening_hours_paths new_key =
     concat (map (\<lambda>day. [new_key @ ''.'' @ day @ ''.opens'', new_key @ ''.'' @ day @ ''.closes'']) days)"

text \<open>The flattening of the example schema \<^verbatim>\<open>place\<close> and the template generated from it.\<close>

definition example_place_flattened :: pydict where
  "example_place_flattened =
     [(''id'', PDict [(''type'', PStr ''string'')]),
      (''address.street'', PDict [(''type'', PStr ''string'')]),
      (''address.city'', PDict [(''type'', PStr ''string'')]),
      (''openingHours.Monday.opens'', time_leaf),
      (''openingHours.Monday.closes'', time_leaf),
      (''openingHours.Tuesday.opens'', time_leaf),
      (''openingHours.Tuesday.closes'', time_leaf),
      (''openingHours.Wednesday.opens'', time_leaf),
      (''openingHours.Wednesday.closes'', time_leaf),
      (''openingHours.Thursday.opens'', time_leaf),
      (''openingHours.Thursday.closes'', time_leaf),
      (''openingHours.Friday.opens'', time_leaf),
      (''openingHours.Friday.closes'', time_leaf),
      (''openingHours.Saturday.opens'', time_leaf),
      (''openingHours.Saturday.closes'', time_leaf),
      (''openingHours.Sunday.opens'', time_leaf),
      (''openingHours.Sunday.closes'', time_leaf),
      (''capacity'', PDict [(''type'', PStr ''integer'')])]"

definition example_place_template :: template where
  "example_place_template =
     \<lparr>headers = map fst example_place_flattened,
      sample_row =
        [(''id'', ''place123''),
         (''address.street'', ''''),
         (''address.city'', ''''),
         (''openingHours.Monday.opens'', ''09:00''),
         (''openingHours.Monday.closes'', ''17:00''),
         (''openingHours.Tuesday.opens'', ''09:00''),
         (''openingHours.Tuesday.closes'', ''17:00''),
         (''openingHours.Wednesday.opens'', ''09:00''),
         (''openingHours.Wednesday.closes'', ''17:00''),
         (''openingHours.Thursday.opens'', ''09:00''),
         (''openingHours.Thursday.closes'', ''21:00''),
         (''openingHours.Friday.opens'', ''09:00''),
         (''openingHours.Friday.closes'', ''21:00''),
         (''openingHours.Saturday.opens'', ''10:00''),
         (''openingHours.Saturday.closes'', ''21:00''),
         (''openingHours.Sunday.opens'', ''10:00''),
         (''openingHours.Sunday.closes'', ''17:00''),
         (''capacity'', ''500'')]\<rparr>"

section \<open>Facts about the string operations\<close>

lemma py_lower_char_comma: "py_lower_char c = CHR '','' \<longleftrightarrow> c = CHR '',''"
proof
  assume h: "py_lower_char c = CHR '',''"
  define n where "n = (of_char c :: nat)"
  show "c = CHR '',''"
  proof (cases "(65 \<le> n \<and> n \<le> 90) \<or> (192 \<le> n \<and> n \<le> 222 \<and> n \<noteq> 215)")
    case True
    then have "py_lower_char c = char_of (n + 32)"
      by (simp add: py_lower_char_def Let_def n_def)
    with h have "of_char (char_of (n + 32) :: char) = (of_char (CHR '','') :: nat)"
      by simp
    then have m: "(n + 32) mod 256 = 44" by simp
    from True have "n + 32 < 256" by linarith
    with m have "n + 32 = 44" by simp
    with True have False by linarith
    then show ?thesis ..
  next
    case False
    then have "py_lower_char c = c" by (auto simp: py_lower_char_def Let_def n_def)
    with h show ?thesis by simp
  qed
next
  assume "c = CHR '',''"
  then show "py_lower_char c = CHR '',''" by (simp add: py_lower_char_def)
qed

lemma comma_in_py_lower: "CHR '','' \<in> set (py_lower v) \<longleftrightarrow> CHR '','' \<in> set v"
proof -
  have "CHR '','' = py_lower_char c \<longleftrightarrow> c = CHR '',''" for c
    using py_lower_char_comma [of c] by (metis (full_types))
  then have "CHR '','' \<in> py_lower_char ` set v \<longleftrightarrow> CHR '','' \<in> set v"
    by (simp add: image_iff)
  then show ?thesis by (simp add: py_lower_def)
qed

lemma in_dropWhile: "x \<in> set xs \<Longrightarrow> \<not> P x \<Longrightarrow> x \<in> set (dropWhile P xs)"
  by (induction xs) auto

lemma not_space_comma: "\<not> py_isspace (CHR '','')"
  by (simp add: py_isspace_def)

lemma comma_in_py_strip: "CHR '','' \<in> set s \<Longrightarrow> CHR '','' \<in> set (py_strip s)"
  by (simp add: py_strip_def in_dropWhile not_space_comma)

lemma valid_digitpart_chars: "valid_digitpart s \<Longrightarrow> c \<in> set s \<Longrightarrow> py_isdigit c \<or> c = CHR ''_''"
  by (induction s rule: valid_digitpart.induct) (auto split: if_splits)

lemma comma_not_digitpart: "CHR '','' \<in> set s \<Longrightarrow> \<not> valid_digitpart s"
  using valid_digitpart_chars [of s "CHR '',''"] by (auto simp: py_isdigit_def)


lemma py_int_comma: "CHR '','' \<in> set s \<Longrightarrow> py_int s = None"
proof -
  assume "CHR '','' \<in> set s"
  then have c: "CHR '','' \<in> set (py_strip s)" by (rule comma_in_py_strip)
  show ?thesis
  proof (cases "py_strip s")
    case Nil
    then show ?thesis by (simp add: py_int_def)
  next
    case (Cons a cs)
    with c have n1: "\<not> valid_digitpart (a # cs)"
      using comma_not_digitpart [of "a # cs"] by simp
    have n2: "\<not> valid_digitpart cs" if "a = CHR ''-'' \<or> a = CHR ''+''"
      using c Cons that comma_not_digitpart [of cs] by auto
    show ?thesis using Cons n1 n2 by (simp add: py_int_def del: valid_digitpart.simps)
  qed
qed

lemma comma_split_sign: "CHR '','' \<in> set s \<Longrightarrow> CHR '','' \<in> set (snd (split_sign s))"
  by (cases s) (auto simp: split_sign_def)

lemma parse_mantissa_comma: "CHR '','' \<in> set m \<Longrightarrow> parse_mantissa m = None"
proof -
  assume h: "CHR '','' \<in> set m"
  let ?ip = "takeWhile (\<lambda>c. c \<noteq> CHR ''.'') m"
  let ?r = "dropWhile (\<lambda>c. c \<noteq> CHR ''.'') m"
  have "set m = set ?ip \<union> set ?r"
    by (metis set_append takeWhile_dropWhile_id)
  with h consider "CHR '','' \<in> set ?ip" | "CHR '','' \<in> set ?r" by auto
  then show ?thesis
  proof cases
    case 1
    then have a: "\<not> valid_digitpart ?ip" by (rule comma_not_digitpart)
    from 1 have b: "?ip \<noteq> []" by auto
    show ?thesis
    proof (cases ?r)
      case Nil
      with a show ?thesis by (simp add: parse_mantissa_def Let_def del: dropWhile_eq_Nil_conv)
    next
      case (Cons d fp)
      with a b show ?thesis by (simp add: parse_mantissa_def Let_def)
    qed
  next
    case 2
    then obtain d fp where r: "?r = d # fp" by (cases ?r) auto
    then have "d = CHR ''.''" using hd_dropWhile [of "\<lambda>c. c \<noteq> CHR ''.''" m] by auto
    with 2 r have c: "CHR '','' \<in> set fp" by auto
    then have a: "\<not> valid_digitpart fp" by (rule comma_not_digitpart)
    from c have b: "fp \<noteq> []" by auto
    from r a b show ?thesis by (simp add: parse_mantissa_def Let_def)
  qed
qed

lemma parse_exponent_comma:
  assumes "CHR '','' \<in> set (dropWhile (\<lambda>c. \<not> is_exp_char c) u)"
  shows "parse_exponent (dropWhile (\<lambda>c. \<not> is_exp_char c) u) = None"
proof -
  let ?r = "dropWhile (\<lambda>c. \<not> is_exp_char c) u"
  from assms obtain e x where r: "?r = e # x" by (cases ?r) auto
  then have "is_exp_char e" using hd_dropWhile [of "\<lambda>c. \<not> is_exp_char c" u] by auto
  then have "e \<noteq> CHR '',''" by (auto simp: is_exp_char_def)
  with assms r have "CHR '','' \<in> set x" by auto
  then have "CHR '','' \<in> set (snd (split_sign x))" by (rule comma_split_sign)
  then have "\<not> valid_digitpart (snd (split_sign x))" by (rule comma_not_digitpart)
  with r show ?thesis by (auto simp: parse_exponent_def split: prod.splits)
qed

lemma py_float_comma: "CHR '','' \<in> set s \<Longrightarrow> py_float s = None"
proof -
  assume "CHR '','' \<in> set s"
  then have c: "CHR '','' \<in> set (snd (split_sign (py_strip s)))"
    by (simp add: comma_in_py_strip comma_split_sign)
  obtain neg u where su: "split_sign (py_strip s) = (neg, u)" by (cases "split_sign (py_strip s)")
  with c have cu: "CHR '','' \<in> set u" by simp
  then have cl: "CHR '','' \<in> set (py_lower u)" by (simp add: comma_in_py_lower)
  have n1: "py_lower u \<notin> set [''inf'', ''infinity'']"
  proof
    assume "py_lower u \<in> set [''inf'', ''infinity'']"
    then have "py_lower u = ''inf'' \<or> py_lower u = ''infinity''" by simp
    with cl show False by auto
  qed
  have n2: "py_lower u \<noteq> ''nan''" using cl by auto
  have "set u = set (takeWhile (\<lambda>c. \<not> is_exp_char c) u) \<union> set (dropWhile (\<lambda>c. \<not> is_exp_char c) u)"
    by (metis set_append takeWhile_dropWhile_id)
  with cu consider "CHR '','' \<in> set (takeWhile (\<lambda>c. \<not> is_exp_char c) u)"
    | "CHR '','' \<in> set (dropWhile (\<lambda>c. \<not> is_exp_char c) u)" by auto
  then show ?thesis
  proof cases
    case 1
    then have "parse_mantissa (takeWhile (\<lambda>c. \<not> is_exp_char c) u) = None" by (rule parse_mantissa_comma)
    with su n1 n2 show ?thesis by (simp add: py_float_def)
  next
    case 2
    then have "parse_exponent (dropWhile (\<lambda>c. \<not> is_exp_char c) u) = None" by (rule parse_exponent_comma)
    with su n1 n2 show ?thesis by (simp add: py_float_def split: option.splits)
  qed
qed

lemma comma_not_boolean_token:
  assumes "CHR '','' \<in> set v"
  shows "py_lower v \<notin> set [''true'', ''yes'', ''1'']" and "py_lower v \<notin> set [''false'', ''no'', ''0'']"
proof -
  from assms have c: "CHR '','' \<in> set (py_lower v)" by (simp add: comma_in_py_lower)
  show "py_lower v \<notin> set [''true'', ''yes'', ''1'']"
  proof
    assume "py_lower v \<in> set [''true'', ''yes'', ''1'']"
    then have "py_lower v = ''true'' \<or> py_lower v = ''yes'' \<or> py_lower v = ''1''" by simp
    with c show False by auto
  qed
  show "py_lower v \<notin> set [''false'', ''no'', ''0'']"
  proof
    assume "py_lower v \<in> set [''false'', ''no'', ''0'']"
    then have "py_lower v = ''false'' \<or> py_lower v = ''no'' \<or> py_lower v = ''0''" by simp
    with c show False by auto
  qed
qed


section \<open>Coercion of cells\<close>

text \<open>
  Claim C2. For every field name, \<^verbatim>\<open>process_value\<close> turns the text \<^verbatim>\<open>0\<close> into the boolean
  false and the text \<^verbatim>\<open>1\<close> into the boolean true, never into an integer; and every value
  whose lower-case form is one of \<^verbatim>\<open>true\<close>, \<^verbatim>\<open>yes\<close>, \<^verbatim>\<open>1\<close> becomes true, one of
  \<^verbatim>\<open>false\<close>, \<^verbatim>\<open>no\<close>, \<^verbatim>\<open>0\<close> becomes false, whatever the field name says about lists
  and whatever the numeric reading of the value would be.
\<close>

theorem process_value_boolean_tokens:
  "process_value ''0'' f = PBool False
   \<and> process_value ''1'' f = PBool True
   \<and> (py_lower v \<in> set [''true'', ''yes'', ''1''] \<longrightarrow> process_value v f = PBool True)
   \<and> (py_lower v \<in> set [''false'', ''no'', ''0''] \<longrightarrow> process_value v f = PBool False)"
proof -
  have l0: "py_lower ''0'' = ''0''" and l1: "py_lower ''1'' = ''1''" by code_simp+
  have a: "process_value ''0'' f = PBool False"
    unfolding process_value_def l0 by simp
  have b: "process_value ''1'' f = PBool True"
    unfolding process_value_def l1 by simp
  have c: "process_value v f = PBool True" if "py_lower v \<in> set [''true'', ''yes'', ''1'']"
  proof -
    from that have "v \<noteq> []" by (auto simp: py_lower_def)
    with that show ?thesis unfolding process_value_def by simp
  qed
  have d: "process_value v f = PBool False" if "py_lower v \<in> set [''false'', ''no'', ''0'']"
  proof -
    from that have "v \<noteq> []" by (auto simp: py_lower_def)
    moreover from that have "py_lower v \<notin> set [''true'', ''yes'', ''1'']" by auto
    ultimately show ?thesis using that unfolding process_value_def by simp
  qed
  from a b c d show ?thesis by blast
qed

theorem process_value_boolean_tokens_witness:
  "py_lower ''Yes'' \<in> set [''true'', ''yes'', ''1''] \<and> process_value ''Yes'' ''count'' = PBool True
   \<and> py_lower ''NO'' \<in> set [''false'', ''no'', ''0''] \<and> process_value ''NO'' ''2024'' = PBool False"
proof -
  have y: "py_lower ''Yes'' \<in> set [''true'', ''yes'', ''1'']" by code_simp
  have n: "py_lower ''NO'' \<in> set [''false'', ''no'', ''0'']" by code_simp
  from y process_value_boolean_tokens [of "''count''" "''Yes''"]
  have "process_value ''Yes'' ''count'' = PBool True" by blast
  moreover from n process_value_boolean_tokens [of "''2024''" "''NO''"]
  have "process_value ''NO'' ''2024'' = PBool False" by blast
  ultimately show ?thesis using y n by blast
qed



section \<open>From flat rows to nested records\<close>

text \<open>
  Claim C9. \<^verbatim>\<open>transform_flat_to_nested\<close> is not total: on the row with the key \<^verbatim>\<open>a\<close> set
  to \<^verbatim>\<open>5\<close> followed by the key \<^verbatim>\<open>a.b\<close> set to \<^verbatim>\<open>6\<close>, the first key stores the integer 5
  under \<^verbatim>\<open>a\<close>, the second descends into it and the item assignment raises \<^verbatim>\<open>TypeError\<close>.
\<close>

theorem transform_flat_to_nested_raises:
  "transform_flat_to_nested [(''a'', ''5''), (''a.b'', ''6'')] = Inl TypeError"
  by code_simp

lemma py_split_not_Nil: "py_split sep s \<noteq> []"
  by (induction s) (auto split: list.splits)

lemma py_split_no_sep: "sep \<notin> set s \<Longrightarrow> py_split sep s = [s]"
  by (induction s) auto

lemma assign_path_empty:
  "assign_path [] parts final x = Inr (spec_nest (parts @ [final]) x)"
proof (induction parts)
  case Nil
  show ?case by simp
next
  case (Cons p ps)
  then show ?case by (cases "ps @ [final]") auto
qed

lemma assign_path_get:
  "assign_path d parts final x = Inr d' \<Longrightarrow> get_path (PDict d') (parts @ [final]) = Some x"
proof (induction parts arbitrary: d d')
  case Nil
  then show ?case by (auto simp: update_conv')
next
  case (Cons p ps)
  then show ?case
    by (auto simp: update_conv' split: option.splits pyval.splits sum.splits)
qed

lemma transform_items_append:
  "transform_items (xs @ ys) d = Inr r \<Longrightarrow>
     \<exists>m. transform_items xs d = Inr m \<and> transform_items ys m = Inr r"
  by (induction xs arbitrary: d) (auto simp: Let_def split: sum.splits if_splits)

lemma transform_items_single:
  "transform_items [(key, v)] d =
     (let parts = py_split (CHR ''.'') key
      in assign_path d (butlast parts) (last parts) (process_value v (last parts)))"
proof (cases "CHR ''.'' \<in> set key")
  case True
  then show ?thesis by (simp add: Let_def split: sum.splits)
next
  case False
  then show ?thesis by (simp add: py_split_no_sep)
qed



lemma validate_rows_step:
  assumes "validate_rows E p i (row # rows) res = Inr res'"
  shows "\<exists>nested ok msg.
    transform_flat_to_nested row = Inr nested
    \<and> validate_against_schema E nested p = Inr (ok, msg)
    \<and> validate_rows E p (Suc i) rows
       (if ok
        then res\<lparr>valid := valid res + 1,
            valid_items := valid_items res @
              [\<lparr>v_row = i + 2, v_id = get_id nested, v_data = nested\<rparr>]\<rparr>
        else res\<lparr>invalid := invalid res + 1,
            invalid_items := invalid_items res @
              [\<lparr>i_row = i + 2, i_id = get_id nested, i_error = msg, i_data = nested\<rparr>]\<rparr>)
       = Inr res'"
  using assms by (auto split: sum.splits prod.splits if_splits)

lemma validate_rows_counts:
  "validate_rows E p i rows res = Inr res' \<Longrightarrow>
     total res' = total res
     \<and> valid res' + invalid res' = valid res + invalid res + length rows
     \<and> length (valid_items res') + valid res = length (valid_items res) + valid res'
     \<and> length (invalid_items res') + invalid res = length (invalid_items res) + invalid res'"
proof (induction rows arbitrary: i res)
  case Nil
  then show ?case by simp
next
  case (Cons row rows)
  from validate_rows_step [OF Cons.prems] obtain nested ok msg r where
    r: "validate_rows E p (Suc i) rows r = Inr res'"
    and d: "r = (if ok
        then res\<lparr>valid := valid res + 1,
            valid_items := valid_items res @
              [\<lparr>v_row = i + 2, v_id = get_id nested, v_data = nested\<rparr>]\<rparr>
        else res\<lparr>invalid := invalid res + 1,
            invalid_items := invalid_items res @
              [\<lparr>i_row = i + 2, i_id = get_id nested, i_error = msg, i_data = nested\<rparr>]\<rparr>)"
    by blast
  from Cons.IH [OF r] d show ?case by (cases ok) simp_all
qed

lemma validate_rows_row_numbers:
  "validate_rows E p i rows res = Inr res' \<Longrightarrow>
     length (filter (\<lambda>it. v_row it = k) (valid_items res'))
       + length (filter (\<lambda>it. i_row it = k) (invalid_items res'))
     = length (filter (\<lambda>it. v_row it = k) (valid_items res))
       + length (filter (\<lambda>it. i_row it = k) (invalid_items res))
       + (if i + 2 \<le> k \<and> k < i + 2 + length rows then 1 else 0)"
proof (induction rows arbitrary: i res)
  case Nil
  then show ?case by simp
next
  case (Cons row rows)
  from validate_rows_step [OF Cons.prems] obtain nested ok msg r where
    r: "validate_rows E p (Suc i) rows r = Inr res'"
    and d: "r = (if ok
        then res\<lparr>valid := valid res + 1,
            valid_items := valid_items res @
              [\<lparr>v_row = i + 2, v_id = get_id nested, v_data = nested\<rparr>]\<rparr>
        else res\<lparr>invalid := invalid res + 1,
            invalid_items := invalid_items res @
              [\<lparr>i_row = i + 2, i_id = get_id nested, i_error = msg, i_data = nested\<rparr>]\<rparr>)"
    by blast
  from Cons.IH [OF r] d show ?case by (cases ok) auto
qed

lemma validate_rows_extends:
  "validate_rows E p i rows res = Inr res' \<Longrightarrow>
     set (valid_items res) \<subseteq> set (valid_items res')
     \<and> set (invalid_items res) \<subseteq> set (invalid_items res')"
proof (induction rows arbitrary: i res)
  case Nil
  then show ?case by simp
next
  case (Cons row rows)
  from validate_rows_step [OF Cons.prems] obtain nested ok msg r where
    r: "validate_rows E p (Suc i) rows r = Inr res'"
    and d: "r = (if ok
        then res\<lparr>valid := valid res + 1,
            valid_items := valid_items res @
              [\<lparr>v_row = i + 2, v_id = get_id nested, v_data = nested\<rparr>]\<rparr>
        else res\<lparr>invalid := invalid res + 1,
            invalid_items := invalid_items res @
              [\<lparr>i_row = i + 2, i_id = get_id nested, i_error = msg, i_data = nested\<rparr>]\<rparr>)"
    by blast
  from Cons.IH [OF r] d show ?case by (cases ok) auto
qed

text \<open>Every row is recorded, under its index plus two, in the sequence the validator chose.\<close>

lemma validate_rows_records:
  "validate_rows E p i rows res = Inr res' \<Longrightarrow> j < length rows \<Longrightarrow>
     \<exists>nested ok msg.
       transform_flat_to_nested (rows ! j) = Inr nested
       \<and> validate_against_schema E nested p = Inr (ok, msg)
       \<and> (if ok
          then \<lparr>v_row = i + j + 2, v_id = get_id nested, v_data = nested\<rparr> \<in> set (valid_items res')
          else \<lparr>i_row = i + j + 2, i_id = get_id nested, i_error = msg, i_data = nested\<rparr>
                 \<in> set (invalid_items res'))"
proof (induction rows arbitrary: i res j)
  case Nil
  then show ?case by simp
next
  case (Cons row rows)
  from validate_rows_step [OF Cons.prems(1)] obtain nested ok msg r where
    t: "transform_flat_to_nested row = Inr nested"
    and s: "validate_against_schema E nested p = Inr (ok, msg)"
    and r: "validate_rows E p (Suc i) rows r = Inr res'"
    and d: "r = (if ok
        then res\<lparr>valid := valid res + 1,
            valid_items := valid_items res @
              [\<lparr>v_row = i + 2, v_id = get_id nested, v_data = nested\<rparr>]\<rparr>
        else res\<lparr>invalid := invalid res + 1,
            invalid_items := invalid_items res @
              [\<lparr>i_row = i + 2, i_id = get_id nested, i_error = msg, i_data = nested\<rparr>]\<rparr>)"
    by blast
  show ?case
  proof (cases j)
    case 0
    from validate_rows_extends [OF r] d
    have "if ok
          then \<lparr>v_row = i + 2, v_id = get_id nested, v_data = nested\<rparr> \<in> set (valid_items res')
          else \<lparr>i_row = i + 2, i_id = get_id nested, i_error = msg, i_data = nested\<rparr>
                 \<in> set (invalid_items res')"
      by (cases ok) auto
    with t s 0 show ?thesis by auto
  next
    case (Suc j')
    with Cons.prems(2) have lt: "j' < length rows" by simp
    have e: "Suc i + j' + 2 = i + j + 2" using Suc by simp
    have n: "(row # rows) ! j = rows ! j'" using Suc by simp
    from Cons.IH [OF r lt] show ?thesis unfolding e n .
  qed
qed

text \<open>Every recorded item stems from the row whose index is its row number minus two.\<close>

lemma validate_rows_valid_origin:
  "validate_rows E p i rows res = Inr res' \<Longrightarrow> it \<in> set (valid_items res') \<Longrightarrow>
     it \<in> set (valid_items res)
     \<or> (\<exists>j<length rows. v_row it = i + j + 2
           \<and> transform_flat_to_nested (rows ! j) = Inr (v_data it)
           \<and> v_id it = get_id (v_data it)
           \<and> validate_against_schema E (v_data it) p = Inr (True, None))"
proof (induction rows arbitrary: i res)
  case Nil
  then show ?case by simp
next
  case (Cons row rows)
  from validate_rows_step [OF Cons.prems(1)] obtain nested ok msg r where
    t: "transform_flat_to_nested row = Inr nested"
    and s: "validate_against_schema E nested p = Inr (ok, msg)"
    and r: "validate_rows E p (Suc i) rows r = Inr res'"
    and d: "r = (if ok
        then res\<lparr>valid := valid res + 1,
            valid_items := valid_items res @
              [\<lparr>v_row = i + 2, v_id = get_id nested, v_data = nested\<rparr>]\<rparr>
        else res\<lparr>invalid := invalid res + 1,
            invalid_items := invalid_items res @
              [\<lparr>i_row = i + 2, i_id = get_id nested, i_error = msg, i_data = nested\<rparr>]\<rparr>)"
    by blast
  from s have m: "ok \<Longrightarrow> msg = None"
    by (auto simp: validate_against_schema_def split: sum.splits validate_outcome.splits)
  from Cons.IH [OF r Cons.prems(2)]
  consider "it \<in> set (valid_items r)"
    | j where "j < length rows" "v_row it = Suc i + j + 2"
        "transform_flat_to_nested (rows ! j) = Inr (v_data it)"
        "v_id it = get_id (v_data it)"
        "validate_against_schema E (v_data it) p = Inr (True, None)"
    by blast
  then show ?case
  proof cases
    case 1
    with d consider "it \<in> set (valid_items res)"
      | "ok" "it = \<lparr>v_row = i + 2, v_id = get_id nested, v_data = nested\<rparr>"
      by (cases ok) auto
    then show ?thesis
    proof cases
      case 1
      then show ?thesis by simp
    next
      case 2
      with t s m have "0 < length (row # rows) \<and> v_row it = i + 0 + 2
           \<and> transform_flat_to_nested ((row # rows) ! 0) = Inr (v_data it)
           \<and> v_id it = get_id (v_data it)
           \<and> validate_against_schema E (v_data it) p = Inr (True, None)" by simp
      then show ?thesis by blast
    qed
  next
    case 2
    then have "Suc j < length (row # rows) \<and> v_row it = i + Suc j + 2
           \<and> transform_flat_to_nested ((row # rows) ! Suc j) = Inr (v_data it)
           \<and> v_id it = get_id (v_data it)
           \<and> validate_against_schema E (v_data it) p = Inr (True, None)" by simp
    then show ?thesis by blast
  qed
qed

lemma validate_rows_invalid_origin:
  "validate_rows E p i rows res = Inr res' \<Longrightarrow> it \<in> set (invalid_items res') \<Longrightarrow>
     it \<in> set (invalid_items res)
     \<or> (\<exists>j<length rows. i_row it = i + j + 2
           \<and> transform_flat_to_nested (rows ! j) = Inr (i_data it)
           \<and> i_id it = get_id (i_data it)
           \<and> validate_against_schema E (i_data it) p = Inr (False, i_error it))"
proof (induction rows arbitrary: i res)
  case Nil
  then show ?case by simp
next
  case (Cons row rows)
  from validate_rows_step [OF Cons.prems(1)] obtain nested ok msg r where
    t: "transform_flat_to_nested row = Inr nested"
    and s: "validate_against_schema E nested p = Inr (ok, msg)"
    and r: "validate_rows E p (Suc i) rows r = Inr res'"
    and d: "r = (if ok
        then res\<lparr>valid := valid res + 1,
            valid_items := valid_items res @
              [\<lparr>v_row = i + 2, v_id = get_id nested, v_data = nested\<rparr>]\<rparr>
        else res\<lparr>invalid := invalid res + 1,
            invalid_items := invalid_items res @
              [\<lparr>i_row = i + 2, i_id = get_id nested, i_error = msg, i_data = nested\<rparr>]\<rparr>)"
    by blast
  from Cons.IH [OF r Cons.prems(2)]
  consider "it \<in> set (invalid_items r)"
    | j where "j < length rows" "i_row it = Suc i + j + 2"
        "transform_flat_to_nested (rows ! j) = Inr (i_data it)"
        "i_id it = get_id (i_data it)"
        "validate_against_schema E (i_data it) p = Inr (False, i_error it)"
    by blast
  then show ?case
  proof cases
    case 1
    with d consider "it \<in> set (invalid_items res)"
      | "\<not> ok" "it = \<lparr>i_row = i + 2, i_id = get_id nested, i_error = msg, i_data = nested\<rparr>"
      by (cases ok) auto
    then show ?thesis
    proof cases
      case 1
      then show ?thesis by simp
    next
      case 2
      with t s have "0 < length (row # rows) \<and> i_row it = i + 0 + 2
           \<and> transform_flat_to_nested ((row # rows) ! 0) = Inr (i_data it)
           \<and> i_id it = get_id (i_data it)
           \<and> validate_against_schema E (i_data it) p = Inr (False, i_error it)" by simp
      then show ?thesis by blast
    qed
  next
    case 2
    then have "Suc j < length (row # rows) \<and> i_row it = i + Suc j + 2
           \<and> transform_flat_to_nested ((row # rows) ! Suc j) = Inr (i_data it)
           \<and> i_id it = get_id (i_data it)
           \<and> validate_against_schema E (i_data it) p = Inr (False, i_error it)" by simp
    then show ?thesis by blast
  qed
qed

text \<open>The loop returns when every row transcodes and the validator raises nothing else.\<close>

lemma validate_rows_returns:
  "(\<And>row. row \<in> set rows \<Longrightarrow>
      \<exists>nested r. transform_flat_to_nested row = Inr nested
                 \<and> validate_against_schema E nested p = Inr r) \<Longrightarrow>
   \<exists>res'. validate_rows E p i rows res = Inr res'"
proof (induction rows arbitrary: i res)
  case Nil
  show ?case by simp
next
  case (Cons row rows)
  from Cons.prems [of row] obtain nested ok msg where
    t: "transform_flat_to_nested row = Inr nested"
    and s: "validate_against_schema E nested p = Inr (ok, msg)"
    by auto
  have "\<exists>res'. validate_rows E p (i + 1) rows r = Inr res'" for r
    by (rule Cons.IH, rule Cons.prems, simp)
  with t s show ?case by simp
qed

section \<open>The validation run\<close>

lemma sublist_left: "sublist x ys \<Longrightarrow> sublist x (ps @ ys)"
  unfolding sublist_def by (metis append.assoc)

lemma sublist_right: "sublist x ys \<Longrightarrow> sublist x (ys @ ss)"
  unfolding sublist_def by (metis append.assoc)

lemma sublist_join_comma: "x \<in> set xs \<Longrightarrow> sublist x (join_comma xs)"
proof (induction xs rule: join_comma.induct)
  case 1
  then show ?case by simp
next
  case (2 y)
  then show ?case by simp
next
  case (3 y z zs)
  show ?case
  proof (cases "x = y")
    case True
    show ?thesis unfolding True join_comma.simps by (rule sublist_append_rightI)
  next
    case False
    with 3 have "sublist x (join_comma (z # zs))" by simp
    then show ?thesis unfolding join_comma.simps
      by (intro sublist_left)
  qed
qed

text \<open>
  Claim C6. For a schema name that \<^verbatim>\<open>get_available_schemas\<close> does not list,
  \<^verbatim>\<open>import_and_validate_csv\<close> raises the \<^verbatim>\<open>ValueError\<close> with the unknown-schema message and
  returns no report. The error is the same whatever the CSV file, the schema files and the
  validator are: none of them is consulted. The message contains the requested name and the
  printed list of the available names, hence the printed form of each of them.
\<close>

theorem unknown_schema_raises:
  assumes "schema_name \<notin> set (map fst (get_available_schemas E))"
  shows "import_and_validate_csv E file_path schema_name
           = Inl (ValueError (unknown_schema_message schema_name (map fst (get_available_schemas E))))
    \<and> import_and_validate_csv (E\<lparr>csv_files := f, schema_files := g, jsonschema_validate := h\<rparr>)
          file_path schema_name
           = Inl (ValueError (unknown_schema_message schema_name (map fst (get_available_schemas E))))
    \<and> sublist schema_name (unknown_schema_message schema_name (map fst (get_available_schemas E)))
    \<and> sublist (py_repr_list (map fst (get_available_schemas E)))
         (unknown_schema_message schema_name (map fst (get_available_schemas E)))
    \<and> (\<forall>n\<in>set (map fst (get_available_schemas E)).
          sublist (py_repr_str n)
            (unknown_schema_message schema_name (map fst (get_available_schemas E))))"
proof -
  from assms have none: "map_of (available_schemas E) schema_name = None"
    by (simp add: get_available_schemas_def map_of_eq_None_iff)
  have a: "import_and_validate_csv E file_path schema_name
           = Inl (ValueError (unknown_schema_message schema_name (map fst (get_available_schemas E))))"
    using none by (simp add: import_and_validate_csv_def get_available_schemas_def)
  have b: "import_and_validate_csv (E\<lparr>csv_files := f, schema_files := g, jsonschema_validate := h\<rparr>)
          file_path schema_name
           = Inl (ValueError (unknown_schema_message schema_name (map fst (get_available_schemas E))))"
    using none by (simp add: import_and_validate_csv_def get_available_schemas_def)
  have c: "sublist schema_name (unknown_schema_message schema_name names)" for names
    unfolding unknown_schema_message_def by (rule sublist_appendI)
  have d: "sublist (py_repr_list names) (unknown_schema_message schema_name names)" for names
    unfolding unknown_schema_message_def
    by (rule sublist_left, rule sublist_left, rule sublist_left) simp
  have e: "sublist (py_repr_str n) (unknown_schema_message schema_name names)"
    if "n \<in> set names" for n names
  proof -
    from that have "sublist (py_repr_str n) (join_comma (map py_repr_str names))"
      by (intro sublist_join_comma) simp
    then show ?thesis
      unfolding unknown_schema_message_def py_repr_list_def
      by (intro sublist_left sublist_right)
  qed
  from a b c d e show ?thesis by blast
qed

text \<open>The unknown schema of the test suite, against the schemas \<^verbatim>\<open>event\<close> and \<^verbatim>\<open>place\<close>.\<close>

theorem unknown_schema_raises_witness:
  "''nonexistent_schema'' \<notin> set (map fst (get_available_schemas example_env))
   \<and> import_and_validate_csv example_env ''events.csv'' ''nonexistent_schema''
       = Inl (ValueError (''Unknown schema: nonexistent_schema. Available schemas: [''
                @ [CHR 0x27] @ ''event'' @ [CHR 0x27] @ '', ''
                @ [CHR 0x27] @ ''place'' @ [CHR 0x27] @ '']''))"
proof -
  have h: "''nonexistent_schema'' \<notin> set (map fst (get_available_schemas example_env))"
    by code_simp
  have m: "unknown_schema_message ''nonexistent_schema'' (map fst (get_available_schemas example_env))
        = ''Unknown schema: nonexistent_schema. Available schemas: [''
                @ [CHR 0x27] @ ''event'' @ [CHR 0x27] @ '', ''
                @ [CHR 0x27] @ ''place'' @ [CHR 0x27] @ '']''"
    by code_simp
  from unknown_schema_raises [OF h, of "''events.csv''"]
  have "import_and_validate_csv example_env ''events.csv'' ''nonexistent_schema''
           = Inl (ValueError (unknown_schema_message ''nonexistent_schema''
                                (map fst (get_available_schemas example_env))))"
    by blast
  with h show ?thesis unfolding m by blast
qed

text \<open>
  Claim C7. In a report that \<^verbatim>\<open>import_and_validate_csv\<close> returns, the data row at index \<open>j\<close>
  (counted from 0) is recorded with the row number \<open>j + 2\<close>, and every recorded item carries
  the number of the row that its data was transcoded from, plus two.
\<close>

theorem row_numbers:
  assumes "read_csv_file E file_path = Inr csv_data"
    and "import_and_validate_csv E file_path schema_name = Inr res"
  shows "(\<forall>j<length csv_data.
            \<exists>nested. transform_flat_to_nested (csv_data ! j) = Inr nested
              \<and> (\<lparr>v_row = j + 2, v_id = get_id nested, v_data = nested\<rparr> \<in> set (valid_items res)
                 \<or> (\<exists>msg. \<lparr>i_row = j + 2, i_id = get_id nested, i_error = msg, i_data = nested\<rparr>
                             \<in> set (invalid_items res))))
    \<and> (\<forall>it\<in>set (valid_items res).
          \<exists>j<length csv_data. v_row it = j + 2
            \<and> transform_flat_to_nested (csv_data ! j) = Inr (v_data it))
    \<and> (\<forall>it\<in>set (invalid_items res).
          \<exists>j<length csv_data. i_row it = j + 2
            \<and> transform_flat_to_nested (csv_data ! j) = Inr (i_data it))"
proof -
  from assms obtain p where
    run: "validate_rows E p 0 csv_data
            \<lparr>total = length csv_data, valid = 0, invalid = 0, valid_items = [], invalid_items = []\<rparr>
          = Inr res"
    by (auto simp: import_and_validate_csv_def Let_def split: option.splits)
  have a: "\<exists>nested. transform_flat_to_nested (csv_data ! j) = Inr nested
              \<and> (\<lparr>v_row = j + 2, v_id = get_id nested, v_data = nested\<rparr> \<in> set (valid_items res)
                 \<or> (\<exists>msg. \<lparr>i_row = j + 2, i_id = get_id nested, i_error = msg, i_data = nested\<rparr>
                             \<in> set (invalid_items res)))"
    if "j < length csv_data" for j
  proof -
    from validate_rows_records [OF run that] obtain nested ok msg where
      t: "transform_flat_to_nested (csv_data ! j) = Inr nested"
      and c: "if ok
          then \<lparr>v_row = 0 + j + 2, v_id = get_id nested, v_data = nested\<rparr> \<in> set (valid_items res)
          else \<lparr>i_row = 0 + j + 2, i_id = get_id nested, i_error = msg, i_data = nested\<rparr>
                 \<in> set (invalid_items res)"
      by blast
    from c have "\<lparr>v_row = j + 2, v_id = get_id nested, v_data = nested\<rparr> \<in> set (valid_items res)
                 \<or> (\<exists>msg. \<lparr>i_row = j + 2, i_id = get_id nested, i_error = msg, i_data = nested\<rparr>
                             \<in> set (invalid_items res))"
      by (cases ok) auto
    with t show ?thesis by blast
  qed
  have b: "\<exists>j<length csv_data. v_row it = j + 2
            \<and> transform_flat_to_nested (csv_data ! j) = Inr (v_data it)"
    if "it \<in> set (valid_items res)" for it
    using validate_rows_valid_origin [OF run that] by auto
  have c: "\<exists>j<length csv_data. i_row it = j + 2
            \<and> transform_flat_to_nested (csv_data ! j) = Inr (i_data it)"
    if "it \<in> set (invalid_items res)" for it
    using validate_rows_invalid_origin [OF run that] by auto
  from a b c show ?thesis by blast
qed


text \<open>
  The run of the test suite on two data lines: the first is reported as row 2, the second
  as row 3.
\<close>

theorem row_numbers_witness:
  "read_csv_file example_env ''events.csv'' = Inr example_rows
   \<and> import_and_validate_csv example_env ''events.csv'' ''event'' = Inr example_report
   \<and> length example_rows = 2
   \<and> map v_row (valid_items example_report) = [2]
   \<and> map i_row (invalid_items example_report) = [3]
   \<and> (\<exists>nested. transform_flat_to_nested (example_rows ! 0) = Inr nested
        \<and> (\<lparr>v_row = 0 + 2, v_id = get_id nested, v_data = nested\<rparr> \<in> set (valid_items example_report)
           \<or> (\<exists>msg. \<lparr>i_row = 0 + 2, i_id = get_id nested, i_error = msg, i_data = nested\<rparr>
                       \<in> set (invalid_items example_report))))
   \<and> (\<exists>nested. transform_flat_to_nested (example_rows ! 1) = Inr nested
        \<and> (\<lparr>v_row = 1 + 2, v_id = get_id nested, v_data = nested\<rparr> \<in> set (valid_items example_report)
           \<or> (\<exists>msg. \<lparr>i_row = 1 + 2, i_id = get_id nested, i_error = msg, i_data = nested\<rparr>
                       \<in> set (invalid_items example_report))))"
proof -
  have rd: "read_csv_file example_env ''events.csv'' = Inr example_rows" by code_simp
  have run: "import_and_validate_csv example_env ''events.csv'' ''event'' = Inr example_report"
    by code_simp
  have len: "length example_rows = 2" by code_simp
  have vr: "map v_row (valid_items example_report) = [2]" by code_simp
  have ir: "map i_row (invalid_items example_report) = [3]" by code_simp
  have l0: "0 < length example_rows" and l1: "1 < length example_rows" by (simp_all add: len)
  note all = row_numbers [OF rd run, THEN conjunct1, rule_format]
  from rd run len vr ir all [OF l0] all [OF l1] show ?thesis by blast
qed

text \<open>
  Claim C10. In a report that \<^verbatim>\<open>import_and_validate_csv\<close> returns, the total is the number of
  data rows and the sum of the two counts, each count is the length of its sequence, and
  for every data row exactly one item of the two sequences carries its row number.
\<close>

theorem report_invariant:
  assumes "read_csv_file E file_path = Inr csv_data"
    and "import_and_validate_csv E file_path schema_name = Inr res"
  shows "total res = valid res + invalid res
    \<and> total res = length csv_data
    \<and> length (valid_items res) = valid res
    \<and> length (invalid_items res) = invalid res
    \<and> (\<forall>j<length csv_data.
          length (filter (\<lambda>it. v_row it = j + 2) (valid_items res))
            + length (filter (\<lambda>it. i_row it = j + 2) (invalid_items res)) = 1)"
proof -
  from assms obtain p where
    run: "validate_rows E p 0 csv_data
            \<lparr>total = length csv_data, valid = 0, invalid = 0, valid_items = [], invalid_items = []\<rparr>
          = Inr res"
    by (auto simp: import_and_validate_csv_def Let_def split: option.splits)
  from validate_rows_counts [OF run]
  have a: "total res = valid res + invalid res" and b: "total res = length csv_data"
    and c: "length (valid_items res) = valid res" and d: "length (invalid_items res) = invalid res"
    by simp_all
  have e: "length (filter (\<lambda>it. v_row it = j + 2) (valid_items res))
            + length (filter (\<lambda>it. i_row it = j + 2) (invalid_items res)) = 1"
    if "j < length csv_data" for j
    using validate_rows_row_numbers [OF run, of "j + 2"] that by simp
  from a b c d e show ?thesis by blast
qed

text \<open>The counts of the test suite's run: two rows, one valid, one invalid.\<close>

theorem report_invariant_witness:
  "read_csv_file example_env ''events.csv'' = Inr example_rows
   \<and> import_and_validate_csv example_env ''events.csv'' ''event'' = Inr example_report
   \<and> total example_report = valid example_report + invalid example_report
   \<and> total example_report = length example_rows
   \<and> length (valid_items example_report) = valid example_report
   \<and> length (invalid_items example_report) = invalid example_report
   \<and> length (filter (\<lambda>it. v_row it = 0 + 2) (valid_items example_report))
       + length (filter (\<lambda>it. i_row it = 0 + 2) (invalid_items example_report)) = 1
   \<and> length (filter (\<lambda>it. v_row it = 1 + 2) (valid_items example_report))
       + length (filter (\<lambda>it. i_row it = 1 + 2) (invalid_items example_report)) = 1"
proof -
  have rd: "read_csv_file example_env ''events.csv'' = Inr example_rows" by code_simp
  have run: "import_and_validate_csv example_env ''events.csv'' ''event'' = Inr example_report"
    by code_simp
  have len: "length example_rows = 2" by code_simp
  have l0: "0 < length example_rows" and l1: "1 < length example_rows" by (simp_all add: len)
  note inv = report_invariant [OF rd run]
  note rows = inv [THEN conjunct2, THEN conjunct2, THEN conjunct2, THEN conjunct2, rule_format]
  from rd run inv rows [OF l0] rows [OF l1] show ?thesis by blast
qed

text \<open>
  Claim C1, as stated, fails: \<^verbatim>\<open>transform_flat_to_nested\<close> is called outside any handler, so a
  row that does not transcode ends the run. Here the first of two rows raises \<^verbatim>\<open>TypeError\<close>;
  the schema is known, the second row is never processed and no report is returned.
\<close>

theorem row_isolation_counterexample:
  "map_of (get_available_schemas example_env) ''event'' = Some ''schemas/v1/event.json''
   \<and> read_csv_file example_env ''clash.csv''
       = Inr [[(''a'', ''5''), (''a.b'', ''6'')], [(''id'', ''event9''), (''nameFr'', ''Nine'')]]
   \<and> transform_flat_to_nested [(''a'', ''5''), (''a.b'', ''6'')] = Inl TypeError
   \<and> import_and_validate_csv example_env ''clash.csv'' ''event'' = Inl TypeError"
  by code_simp

text \<open>
  Claim C1, amended. When the schema is known and loads, the file is read, every row
  transcodes and the validator raises nothing but \<^verbatim>\<open>ValidationError\<close>, the run returns a
  report whose total is the number of data rows, and every row is in it under its row
  number: a row that the validator accepts among the valid items, a row that it rejects
  among the invalid items with the text of the error. A rejected row stops nothing.
\<close>

theorem row_isolation:
  assumes known: "map_of (get_available_schemas E) schema_name = Some schema_path"
    and rd: "read_csv_file E file_path = Inr csv_data"
    and tr: "\<forall>row\<in>set csv_data. \<exists>nested. transform_flat_to_nested row = Inr nested"
    and ld: "load_schema E schema_path = Inr schema"
    and nv: "\<forall>instance msg. jsonschema_validate E schema instance \<noteq> InvalidSchema msg"
  shows "\<exists>res. import_and_validate_csv E file_path schema_name = Inr res
    \<and> total res = length csv_data
    \<and> (\<forall>j<length csv_data.
          \<exists>nested. transform_flat_to_nested (csv_data ! j) = Inr nested
            \<and> (case jsonschema_validate E schema (PDict nested) of
                 Accepted \<Rightarrow>
                   \<lparr>v_row = j + 2, v_id = get_id nested, v_data = nested\<rparr> \<in> set (valid_items res)
               | ValidationError msg \<Rightarrow>
                   \<lparr>i_row = j + 2, i_id = get_id nested, i_error = Some msg, i_data = nested\<rparr>
                     \<in> set (invalid_items res)
               | InvalidSchema msg \<Rightarrow> False))"
proof -
  let ?init = "\<lparr>total = length csv_data, valid = 0, invalid = 0,
                valid_items = [], invalid_items = []\<rparr>"
  have va: "\<exists>r. validate_against_schema E nested schema_path = Inr r" for nested
    using ld nv
    by (cases "jsonschema_validate E schema (PDict nested)")
       (auto simp: validate_against_schema_def)
  have "\<exists>res. validate_rows E schema_path 0 csv_data ?init = Inr res"
  proof (rule validate_rows_returns)
    fix row assume "row \<in> set csv_data"
    with tr obtain nested where "transform_flat_to_nested row = Inr nested" by blast
    with va [of nested]
    show "\<exists>nested r. transform_flat_to_nested row = Inr nested
                 \<and> validate_against_schema E nested schema_path = Inr r" by blast
  qed
  then obtain res where run: "validate_rows E schema_path 0 csv_data ?init = Inr res" ..
  with known rd have imp: "import_and_validate_csv E file_path schema_name = Inr res"
    by (simp add: import_and_validate_csv_def Let_def)
  from validate_rows_counts [OF run] have tot: "total res = length csv_data" by simp
  have rows: "\<exists>nested. transform_flat_to_nested (csv_data ! j) = Inr nested
            \<and> (case jsonschema_validate E schema (PDict nested) of
                 Accepted \<Rightarrow>
                   \<lparr>v_row = j + 2, v_id = get_id nested, v_data = nested\<rparr> \<in> set (valid_items res)
               | ValidationError msg \<Rightarrow>
                   \<lparr>i_row = j + 2, i_id = get_id nested, i_error = Some msg, i_data = nested\<rparr>
                     \<in> set (invalid_items res)
               | InvalidSchema msg \<Rightarrow> False)"
    if "j < length csv_data" for j
  proof -
    from validate_rows_records [OF run that] obtain nested ok msg where
      t: "transform_flat_to_nested (csv_data ! j) = Inr nested"
      and s: "validate_against_schema E nested schema_path = Inr (ok, msg)"
      and c: "if ok
          then \<lparr>v_row = 0 + j + 2, v_id = get_id nested, v_data = nested\<rparr> \<in> set (valid_items res)
          else \<lparr>i_row = 0 + j + 2, i_id = get_id nested, i_error = msg, i_data = nested\<rparr>
                 \<in> set (invalid_items res)"
      by blast
    from s c ld have "case jsonschema_validate E schema (PDict nested) of
                 Accepted \<Rightarrow>
                   \<lparr>v_row = j + 2, v_id = get_id nested, v_data = nested\<rparr> \<in> set (valid_items res)
               | ValidationError msg \<Rightarrow>
                   \<lparr>i_row = j + 2, i_id = get_id nested, i_error = Some msg, i_data = nested\<rparr>
                     \<in> set (invalid_items res)
               | InvalidSchema msg \<Rightarrow> False"
      by (cases "jsonschema_validate E schema (PDict nested)")
         (auto simp: validate_against_schema_def)
    with t show ?thesis by blast
  qed
  from imp tot rows show ?thesis by blast
qed

text \<open>The run of the test suite: the second row is rejected, both rows are reported.\<close>

theorem row_isolation_witness:
  "map_of (get_available_schemas example_env) ''event'' = Some ''schemas/v1/event.json''
   \<and> read_csv_file example_env ''events.csv'' = Inr example_rows
   \<and> load_schema example_env ''schemas/v1/event.json'' = Inr example_event_schema
   \<and> import_and_validate_csv example_env ''events.csv'' ''event'' = Inr example_report
   \<and> total example_report = length example_rows
   \<and> map v_row (valid_items example_report) = [2]
   \<and> map i_row (invalid_items example_report) = [3]
   \<and> map i_error (invalid_items example_report) = [Some ''nameFr is a required property'']"
proof -
  have known: "map_of (get_available_schemas example_env) ''event'' = Some ''schemas/v1/event.json''"
    by code_simp
  have rd: "read_csv_file example_env ''events.csv'' = Inr example_rows" by code_simp
  have ld: "load_schema example_env ''schemas/v1/event.json''
              = Inr example_event_schema"
    by code_simp
  have t0: "transform_flat_to_nested (example_rows ! 0)
              = Inr (v_data (hd (valid_items example_report)))" by code_simp
  have t1: "transform_flat_to_nested (example_rows ! 1)
              = Inr (i_data (hd (invalid_items example_report)))" by code_simp
  have tr: "\<forall>row\<in>set example_rows. \<exists>nested. transform_flat_to_nested row = Inr nested"
  proof
    fix row assume "row \<in> set example_rows"
    then have "row = example_rows ! 0 \<or> row = example_rows ! 1"
      by (auto simp: example_rows_def)
    with t0 t1 show "\<exists>nested. transform_flat_to_nested row = Inr nested" by auto
  qed
  have nv: "\<forall>instance msg.
      jsonschema_validate example_env example_event_schema instance
        \<noteq> InvalidSchema msg"
    by (simp add: example_env_def split: option.splits)
  from row_isolation [OF known rd tr ld nv] obtain res where
    imp: "import_and_validate_csv example_env ''events.csv'' ''event'' = Inr res"
    and tot: "total res = length example_rows"
    by blast
  have run: "import_and_validate_csv example_env ''events.csv'' ''event'' = Inr example_report"
    by code_simp
  with imp have eq: "res = example_report" by simp
  have v: "map v_row (valid_items example_report) = [2]" by code_simp
  have i: "map i_row (invalid_items example_report) = [3]" by code_simp
  have e: "map i_error (invalid_items example_report) = [Some ''nameFr is a required property'']"
    by code_simp
  from known rd ld run tot eq v i e show ?thesis by blast
qed

section \<open>Flattening\<close>

declare flatten_schema.simps [simp del]
declare flatten_properties.simps(2) [simp del]

lemma set_opening_hours_keys:
  "fst ` set (set_opening_hours k ds fl)
     = fst ` set fl \<union> set (concat (map (\<lambda>day. [k @ ''.'' @ day @ ''.opens'', k @ ''.'' @ day @ ''.closes'']) ds))"
  by (induction ds arbitrary: fl) (auto simp: dom_update)

lemma set_opening_hours_map_of:
  "map_of (set_opening_hours k ds fl) p
     = (if p \<in> set (concat (map (\<lambda>day. [k @ ''.'' @ day @ ''.opens'', k @ ''.'' @ day @ ''.closes'']) ds))
        then Some time_leaf else map_of fl p)"
  by (induction ds arbitrary: fl) (auto simp: update_conv')

lemma flatten_items_keys: "fst ` set fl \<subseteq> fst ` set (flatten_items k ps fl)"
  by (induction k ps fl rule: flatten_items.induct) (auto simp: dom_update)

lemma flatten_items_map_of:
  "\<not> prefix k p \<Longrightarrow> map_of (flatten_items k ps fl) p = map_of fl p"
  by (induction k ps fl rule: flatten_items.induct) (auto simp: update_conv')

text \<open>The ways in which one round of the loop over the properties can go on.\<close>

lemma flatten_properties_Cons_cases:
  assumes run: "flatten_properties ((key, v) # rest) parent fl = Inr fl'"
  obtains
    (object) fl1 where
      "has_with_type v ''properties'' ''object'' = Inr True"
      "flatten_schema v (path_key parent key) fl = Inr fl1"
      "flatten_properties rest parent fl1 = Inr fl'"
  | (plain)
      "flatten_properties rest parent (AList.update (path_key parent key) v fl) = Inr fl'"
  | (items) item_properties where
      "flatten_properties rest parent (flatten_items (path_key parent key) item_properties fl) = Inr fl'"
  | (skip)
      "flatten_properties rest parent fl = Inr fl'"
  | (hours)
      "key = ''openingHours''"
      "flatten_properties rest parent (set_opening_hours (path_key parent key) days fl) = Inr fl'"
proof (cases "has_with_type v ''properties'' ''object''")
  case (Inl e)
  with run show ?thesis by (simp add: flatten_properties.simps(2) Let_def)
next
  case o: (Inr b)
  show ?thesis
  proof (cases b)
    case True
    with o run object show ?thesis
      by (simp add: flatten_properties.simps(2) Let_def split: sum.splits)
  next
    case False
    from o False have nb: "has_with_type v ''properties'' ''object'' = Inr False" by simp
    show ?thesis
    proof (cases "has_with_type v ''items'' ''array''")
      case (Inl e)
      with nb run show ?thesis by (simp add: flatten_properties.simps(2) Let_def)
    next
      case a: (Inr c)
      show ?thesis
      proof (cases c)
        case False
        with nb a run plain show ?thesis by (simp add: flatten_properties.simps(2) Let_def)
      next
        case True
        from a True have na: "has_with_type v ''items'' ''array'' = Inr True" by simp
        show ?thesis
        proof (cases "py_get v ''items''")
          case (Inl e)
          with nb na run show ?thesis by (simp add: flatten_properties.simps(2) Let_def)
        next
          case g: (Inr items_opt)
          let ?items = "case items_opt of None \<Rightarrow> PDict [] | Some x \<Rightarrow> x"
          from nb na g run have r2:
            "(case has_with_type ?items ''properties'' ''object'' of
                Inl e \<Rightarrow> Inl e
              | Inr True \<Rightarrow>
                  (case py_get ?items ''properties'' of
                     Inl e \<Rightarrow> Inl e
                   | Inr None \<Rightarrow> flatten_properties rest parent fl
                   | Inr (Some (PDict item_properties)) \<Rightarrow>
                       flatten_properties rest parent
                         (flatten_items (path_key parent key) item_properties fl)
                   | Inr (Some _) \<Rightarrow> Inl AttributeError)
              | Inr False \<Rightarrow>
                  if key = ''openingHours''
                  then flatten_properties rest parent
                         (set_opening_hours (path_key parent key) days fl)
                  else flatten_properties rest parent
                         (AList.update (path_key parent key) v fl)) = Inr fl'"
            by (simp add: flatten_properties.simps(2) Let_def)
          show ?thesis
          proof (cases "has_with_type ?items ''properties'' ''object''")
            case (Inl e)
            with r2 show ?thesis by simp
          next
            case i: (Inr d)
            show ?thesis
            proof (cases d)
              case False
              with i r2 hours plain show ?thesis by (cases "key = ''openingHours''") simp_all
            next
              case True
              with i r2 items skip show ?thesis
                by (auto split: sum.splits option.splits pyval.splits)
            qed
          qed
        qed
      qed
    qed
  qed
qed


lemma flatten_schema_cases:
  assumes "flatten_schema schema parent fl = Inr fl'"
  obtains (none) "fl' = fl"
  | (props) properties where
      "py_get schema ''properties'' = Inr (Some (PDict properties))"
      "flatten_properties properties parent fl = Inr fl'"
  using assms
  by (auto simp: flatten_schema.simps split: sum.splits option.splits pyval.splits)

lemma size_map_of_pyval: "map_of d k = Some v \<Longrightarrow> size v < size (PDict d)"
  by (induction d) (auto split: if_splits)

lemma py_get_size: "py_get x k = Inr (Some v) \<Longrightarrow> size v < size x"
  by (cases x) (auto simp: py_get_def dest: size_map_of_pyval)

text \<open>Flattening never removes a path: induction on the size of what is flattened.\<close>

lemma flatten_keys_grow_aux:
  "(size schema < n \<longrightarrow> flatten_schema schema parent fl = Inr fl'
      \<longrightarrow> fst ` set fl \<subseteq> fst ` set fl')
   \<and> (size (PDict ps) < n \<longrightarrow> flatten_properties ps parent fl = Inr fl'
      \<longrightarrow> fst ` set fl \<subseteq> fst ` set fl')"
proof (induction n arbitrary: schema ps parent fl fl')
  case 0
  show ?case by simp
next
  case (Suc n)
  note IH1 = Suc.IH [THEN conjunct1, THEN mp, THEN mp]
  note IH2 = Suc.IH [THEN conjunct2, THEN mp, THEN mp]
  have a: "fst ` set fl \<subseteq> fst ` set fl'"
    if sz: "size schema < Suc n" and run: "flatten_schema schema parent fl = Inr fl'"
    using run
  proof (cases rule: flatten_schema_cases)
    case none
    then show ?thesis by simp
  next
    case (props properties)
    from py_get_size [OF props(1)] sz have "size (PDict properties) < n" by simp
    from IH2 [OF this props(2)] show ?thesis .
  qed
  have b: "fst ` set fl \<subseteq> fst ` set fl'"
    if sz: "size (PDict ps) < Suc n" and run: "flatten_properties ps parent fl = Inr fl'"
  proof (cases ps)
    case Nil
    with run show ?thesis by (simp add: flatten_properties.simps)
  next
    case (Cons kv rest)
    obtain key v where kv: "kv = (key, v)" by (cases kv)
    from sz Cons kv have s1: "size v < n" and s2: "size (PDict rest) < n" by simp_all
    from run Cons kv have "flatten_properties ((key, v) # rest) parent fl = Inr fl'" by simp
    then show ?thesis
    proof (cases rule: flatten_properties_Cons_cases)
      case (object fl1)
      from IH1 [OF s1 object(2)] IH2 [OF s2 object(3)] show ?thesis by (rule subset_trans)
    next
      case plain
      have "fst ` set fl \<subseteq> fst ` set (AList.update (path_key parent key) v fl)"
        by (simp add: dom_update subset_insertI)
      from this IH2 [OF s2 plain] show ?thesis by (rule subset_trans)
    next
      case (items item_properties)
      have "fst ` set fl \<subseteq> fst ` set (flatten_items (path_key parent key) item_properties fl)"
        by (rule flatten_items_keys)
      from this IH2 [OF s2 items] show ?thesis by (rule subset_trans)
    next
      case skip
      from IH2 [OF s2 skip] show ?thesis .
    next
      case hours
      have "fst ` set fl \<subseteq> fst ` set (set_opening_hours (path_key parent key) days fl)"
        unfolding set_opening_hours_keys by (rule Un_upper1)
      from this IH2 [OF s2 hours(2)] show ?thesis by (rule subset_trans)
    qed
  qed
  show ?case
  proof (intro conjI impI)
    assume "size schema < Suc n" "flatten_schema schema parent fl = Inr fl'"
    then show "fst ` set fl \<subseteq> fst ` set fl'" by (rule a)
  next
    assume "size (PDict ps) < Suc n" "flatten_properties ps parent fl = Inr fl'"
    then show "fst ` set fl \<subseteq> fst ` set fl'" by (rule b)
  qed
qed

lemma flatten_properties_keys_grow:
  assumes "flatten_properties ps parent fl = Inr fl'"
  shows "fst ` set fl \<subseteq> fst ` set fl'"
proof -
  have "size (PDict ps) < Suc (size (PDict ps))" by simp
  from flatten_keys_grow_aux [where ps = ps and n = "Suc (size (PDict ps))" and parent = parent
                             and fl = fl and fl' = fl',
                             THEN conjunct2, THEN mp, THEN mp, OF this assms]
  show ?thesis .
qed

text \<open>
  Flattening under a parent key writes only paths that extend it; a round of the loop writes
  only paths that extend the key of its property.
\<close>

lemma flatten_untouched_aux:
  "(size schema < n \<longrightarrow> flatten_schema schema parent fl = Inr fl' \<longrightarrow> \<not> prefix parent k
      \<longrightarrow> map_of fl' k = map_of fl k)
   \<and> (size (PDict ps) < n \<longrightarrow> flatten_properties ps parent fl = Inr fl'
      \<longrightarrow> (\<forall>key\<in>fst ` set ps. \<not> prefix (path_key parent key) k)
      \<longrightarrow> map_of fl' k = map_of fl k)"
proof (induction n arbitrary: schema ps parent fl fl')
  case 0
  show ?case by simp
next
  case (Suc n)
  note IH1 = Suc.IH [THEN conjunct1, THEN mp, THEN mp, THEN mp]
  note IH2 = Suc.IH [THEN conjunct2, THEN mp, THEN mp, THEN mp]
  have a: "map_of fl' k = map_of fl k"
    if sz: "size schema < Suc n" and run: "flatten_schema schema parent fl = Inr fl'"
      and np: "\<not> prefix parent k"
    using run
  proof (cases rule: flatten_schema_cases)
    case none
    then show ?thesis by simp
  next
    case (props properties)
    from py_get_size [OF props(1)] sz have s: "size (PDict properties) < n" by simp
    from np have "\<not> prefix (path_key parent key) k" for key
      by (auto simp: path_key_def dest: append_prefixD)
    then have "\<forall>key\<in>fst ` set properties. \<not> prefix (path_key parent key) k" by blast
    from IH2 [OF s props(2) this] show ?thesis .
  qed
  have b: "map_of fl' k = map_of fl k"
    if sz: "size (PDict ps) < Suc n" and run: "flatten_properties ps parent fl = Inr fl'"
      and np: "\<forall>key\<in>fst ` set ps. \<not> prefix (path_key parent key) k"
  proof (cases ps)
    case Nil
    with run show ?thesis by (simp add: flatten_properties.simps)
  next
    case (Cons kv rest)
    obtain key v where kv: "kv = (key, v)" by (cases kv)
    from sz Cons kv have s1: "size v < n" and s2: "size (PDict rest) < n" by simp_all
    from np Cons kv have n1: "\<not> prefix (path_key parent key) k"
      and n2: "\<forall>key\<in>fst ` set rest. \<not> prefix (path_key parent key) k" by simp_all
    from n1 have ne: "path_key parent key \<noteq> k" by auto
    from run Cons kv have "flatten_properties ((key, v) # rest) parent fl = Inr fl'" by simp
    then show ?thesis
    proof (cases rule: flatten_properties_Cons_cases)
      case (object fl1)
      from IH2 [OF s2 object(3) n2] IH1 [OF s1 object(2) n1] show ?thesis by (rule trans)
    next
      case plain
      from ne have "map_of (AList.update (path_key parent key) v fl) k = map_of fl k"
        by (simp add: update_conv')
      from IH2 [OF s2 plain n2] this show ?thesis by (rule trans)
    next
      case (items item_properties)
      from IH2 [OF s2 items n2] flatten_items_map_of [OF n1] show ?thesis by (rule trans)
    next
      case skip
      from IH2 [OF s2 skip n2] show ?thesis .
    next
      case hours
      have "k \<notin> set (concat (map (\<lambda>day. [path_key parent key @ ''.'' @ day @ ''.opens'',
                                          path_key parent key @ ''.'' @ day @ ''.closes'']) ds))" for ds
        using n1 by (induction ds) auto
      then have "map_of (set_opening_hours (path_key parent key) days fl) k = map_of fl k"
        by (simp only: set_opening_hours_map_of if_False)
      from IH2 [OF s2 hours(2) n2] this show ?thesis by (rule trans)
    qed
  qed
  show ?case
  proof (intro conjI impI)
    assume "size schema < Suc n" "flatten_schema schema parent fl = Inr fl'" "\<not> prefix parent k"
    then show "map_of fl' k = map_of fl k" by (rule a)
  next
    assume "size (PDict ps) < Suc n" "flatten_properties ps parent fl = Inr fl'"
      "\<forall>key\<in>fst ` set ps. \<not> prefix (path_key parent key) k"
    then show "map_of fl' k = map_of fl k" by (rule b)
  qed
qed

lemma flatten_properties_untouched:
  assumes "flatten_properties ps parent fl = Inr fl'"
    and "\<forall>key\<in>fst ` set ps. \<not> prefix (path_key parent key) k"
  shows "map_of fl' k = map_of fl k"
proof -
  have "size (PDict ps) < Suc (size (PDict ps))" by simp
  from flatten_untouched_aux [where ps = ps and n = "Suc (size (PDict ps))" and parent = parent
                             and fl = fl and fl' = fl' and k = k,
                             THEN conjunct2, THEN mp, THEN mp, THEN mp, OF this assms]
  show ?thesis .
qed

text \<open>A round of the loop, then the rest of the loop.\<close>

lemma flatten_properties_Cons:
  "flatten_properties ((key, v) # rest) parent fl =
     (case flatten_properties [(key, v)] parent fl of
        Inl e \<Rightarrow> Inl e
      | Inr fl1 \<Rightarrow> flatten_properties rest parent fl1)"
proof (cases "has_with_type v ''properties'' ''object''")
  case (Inl e)
  then show ?thesis by (simp add: flatten_properties.simps Let_def)
next
  case o: (Inr b)
  show ?thesis
  proof (cases b)
    case True
    with o show ?thesis
      by (simp add: flatten_properties.simps Let_def split: sum.splits)
  next
    case False
    with o have nb: "has_with_type v ''properties'' ''object'' = Inr False" by simp
    show ?thesis
    proof (cases "has_with_type v ''items'' ''array''")
      case (Inl e)
      with nb show ?thesis by (simp add: flatten_properties.simps Let_def)
    next
      case a: (Inr c)
      show ?thesis
      proof (cases c)
        case False
        with nb a show ?thesis by (simp add: flatten_properties.simps Let_def)
      next
        case True
        with a have na: "has_with_type v ''items'' ''array'' = Inr True" by simp
        show ?thesis
        proof (cases "py_get v ''items''")
          case (Inl e)
          with nb na show ?thesis by (simp add: flatten_properties.simps Let_def)
        next
          case g: (Inr items_opt)
          let ?items = "case items_opt of None \<Rightarrow> PDict [] | Some x \<Rightarrow> x"
          show ?thesis
          proof (cases "has_with_type ?items ''properties'' ''object''")
            case (Inl e)
            with nb na g show ?thesis by (simp add: flatten_properties.simps Let_def)
          next
            case i: (Inr d)
            show ?thesis
            proof (cases d)
              case False
              with nb na g i show ?thesis by (simp add: flatten_properties.simps Let_def)
            next
              case True
              with i have ni: "has_with_type ?items ''properties'' ''object'' = Inr True" by simp
              show ?thesis
              proof (cases "py_get ?items ''properties''")
                case (Inl e)
                with nb na g ni show ?thesis by (simp add: flatten_properties.simps Let_def)
              next
                case (Inr po)
                with nb na g ni show ?thesis
                  by (simp add: flatten_properties.simps Let_def split: option.splits pyval.splits)
              qed
            qed
          qed
        qed
      qed
    qed
  qed
qed

lemma flatten_properties_append:
  "flatten_properties (pre @ post) parent fl = Inr fl' \<Longrightarrow>
     \<exists>m. flatten_properties pre parent fl = Inr m \<and> flatten_properties post parent m = Inr fl'"
proof (induction pre arbitrary: fl)
  case Nil
  then show ?case by (simp add: flatten_properties.simps)
next
  case (Cons kv pre)
  obtain key v where kv: "kv = (key, v)" by (cases kv)
  from Cons.prems kv obtain fl1 where
    one: "flatten_properties [(key, v)] parent fl = Inr fl1"
    and more: "flatten_properties (pre @ post) parent fl1 = Inr fl'"
    using flatten_properties_Cons [of key v "pre @ post" parent fl]
    by (auto split: sum.splits)
  from Cons.IH [OF more] obtain m where
    m1: "flatten_properties pre parent fl1 = Inr m"
    and m2: "flatten_properties post parent m = Inr fl'" by blast
  from one m1 have "flatten_properties ((key, v) # pre) parent fl = Inr m"
    using flatten_properties_Cons [of key v pre parent fl] by simp
  with m2 kv show ?case by blast
qed

text \<open>What the loop does at an \<^verbatim>\<open>openingHours\<close> array whose items are not an object with properties.\<close>

lemma has_with_type_array_not_object:
  assumes "has_with_type v ''items'' ''array'' = Inr True"
  shows "has_with_type v ''properties'' ''object'' = Inr False"
proof (cases v)
  case (PDict d)
  with assms have "map_of d ''type'' = Some (PStr ''array'')"
    by (auto simp: has_with_type_def py_in_def py_get_def split: if_splits bool.splits)
  with PDict show ?thesis
    by (simp add: has_with_type_def py_in_def py_get_def split: bool.splits)
qed (use assms in \<open>auto simp: has_with_type_def py_in_def py_get_def split: if_splits bool.splits\<close>)

lemma flatten_properties_opening_hours:
  assumes "has_with_type v ''items'' ''array'' = Inr True"
    and "py_get v ''items'' = Inr (Some items)"
    and "has_with_type items ''properties'' ''object'' = Inr False"
  shows "flatten_properties ((''openingHours'', v) # rest) parent fl
           = flatten_properties rest parent
               (set_opening_hours (path_key parent ''openingHours'') days fl)"
  using assms has_with_type_array_not_object [OF assms(1)]
  by (simp add: flatten_properties.simps Let_def)






section \<open>Template generation\<close>

lemma fold_update_map_of:
  "map_of (fold (\<lambda>h. AList.update h (f h)) hs acc) k
     = (if k \<in> set hs then Some (f k) else map_of acc k)"
  by (induction hs arbitrary: acc) (auto simp: update_conv')

lemma fold_update_keys:
  "fst ` set (fold (\<lambda>h. AList.update h (f h)) hs acc) = fst ` set acc \<union> set hs"
  by (induction hs arbitrary: acc) (auto simp: dom_update)

text \<open>
  Claim C8. When the schema loads and the flattening returns, the template has the keys of
  the flattened schema as its headers, in the order of the flattening and as many as there
  are entries; the keys of the sample row are the headers, and every header has a value in
  it: the example of the table, or the empty string where the table has none.
\<close>

theorem template_headers_and_sample_row:
  assumes ld: "load_schema E schema_path = Inr schema"
    and fl: "flatten_schema schema [] [] = Inr flattened"
  shows "\<exists>t. generate_csv_template E schema_path schema_name = Inr t
    \<and> headers t = map fst flattened
    \<and> length (headers t) = length flattened
    \<and> sample_row t = create_sample_row (headers t) schema_name
    \<and> set (map fst (sample_row t)) = set (headers t)
    \<and> (\<forall>h\<in>set (headers t).
          map_of (sample_row t) h = Some (get_or_empty (sample_data schema_name) h))
    \<and> (\<forall>h\<in>set (headers t).
          map_of (sample_data schema_name) h = None \<longrightarrow> map_of (sample_row t) h = Some [])"
proof -
  let ?hs = "map fst flattened"
  let ?row = "create_sample_row ?hs schema_name"
  let ?t = "\<lparr>headers = ?hs, sample_row = ?row\<rparr>"
  have keys: "fst ` set ?row = set ?hs"
    unfolding create_sample_row_def fold_update_keys by simp
  then have ok: "\<not> list_ex (\<lambda>k. k \<notin> set ?hs) (map fst ?row)"
    by (auto simp: list_ex_iff)
  have gen: "generate_csv_template E schema_path schema_name = Inr ?t"
    using ld fl ok by (simp add: generate_csv_template_def schema_to_csv_headers_def Let_def)
  have vals: "map_of ?row h = Some (get_or_empty (sample_data schema_name) h)"
    if "h \<in> set ?hs" for h
    using that unfolding create_sample_row_def fold_update_map_of by simp
  have empty: "map_of ?row h = Some []"
    if "h \<in> set ?hs" "map_of (sample_data schema_name) h = None" for h
    using vals [OF that(1)] that(2) by (simp add: get_or_empty_def)
  have a: "headers ?t = map fst flattened" by simp
  have b: "length (headers ?t) = length flattened" by simp
  have c: "sample_row ?t = create_sample_row (headers ?t) schema_name" by simp
  have d: "set (map fst (sample_row ?t)) = set (headers ?t)" using keys by simp
  have e: "\<forall>h\<in>set (headers ?t).
          map_of (sample_row ?t) h = Some (get_or_empty (sample_data schema_name) h)"
    using vals by simp
  have f: "\<forall>h\<in>set (headers ?t).
          map_of (sample_data schema_name) h = None \<longrightarrow> map_of (sample_row ?t) h = Some []"
    using empty by simp
  from gen a b c d e f
  have all: "generate_csv_template E schema_path schema_name = Inr ?t
    \<and> headers ?t = map fst flattened
    \<and> length (headers ?t) = length flattened
    \<and> sample_row ?t = create_sample_row (headers ?t) schema_name
    \<and> set (map fst (sample_row ?t)) = set (headers ?t)
    \<and> (\<forall>h\<in>set (headers ?t).
          map_of (sample_row ?t) h = Some (get_or_empty (sample_data schema_name) h))
    \<and> (\<forall>h\<in>set (headers ?t).
          map_of (sample_data schema_name) h = None \<longrightarrow> map_of (sample_row ?t) h = Some [])"
    by (intro conjI)
  show ?thesis by (rule exI [where x = ?t]) (rule all)
qed

text \<open>
  The template of the example schema \<^verbatim>\<open>place\<close>: eighteen headers; the two address columns
  have no example and hold the empty string.
\<close>

theorem template_headers_and_sample_row_witness:
  "load_schema example_env ''schemas/v1/place.json'' = Inr example_place_schema
   \<and> flatten_schema example_place_schema [] [] = Inr example_place_flattened
   \<and> generate_csv_template example_env ''schemas/v1/place.json'' ''place'' = Inr example_place_template
   \<and> headers example_place_template = map fst example_place_flattened
   \<and> length (headers example_place_template) = 18
   \<and> map fst (sample_row example_place_template) = headers example_place_template
   \<and> map_of (sample_row example_place_template) ''address.city'' = Some []
   \<and> map_of (sample_row example_place_template) ''capacity'' = Some ''500''"
proof -
  have ld: "load_schema example_env ''schemas/v1/place.json'' = Inr example_place_schema"
    by code_simp
  have fl: "flatten_schema example_place_schema [] [] = Inr example_place_flattened" by code_simp
  have gen: "generate_csv_template example_env ''schemas/v1/place.json'' ''place''
               = Inr example_place_template" by code_simp
  from template_headers_and_sample_row [OF ld fl, of "''place''"] obtain t where
    t: "generate_csv_template example_env ''schemas/v1/place.json'' ''place'' = Inr t"
    and th: "headers t = map fst example_place_flattened"
    and tl: "length (headers t) = length example_place_flattened"
    by blast
  from t gen have "t = example_place_template" by simp
  with th tl have h: "headers example_place_template = map fst example_place_flattened"
    and l: "length (headers example_place_template) = length example_place_flattened"
    by simp_all
  have n: "length example_place_flattened = 18" by code_simp
  have k: "map fst (sample_row example_place_template) = headers example_place_template"
    by code_simp
  have c: "map_of (sample_row example_place_template) ''address.city'' = Some []" by code_simp
  have p: "map_of (sample_row example_place_template) ''capacity'' = Some ''500''" by code_simp
  from l n have l18: "length (headers example_place_template) = 18" by simp
  from ld fl gen h l18 k c p show ?thesis by (intro conjI)
qed

end
